theory Spec2Isabelle
  imports Main
begin

section \<open>String contexts: the data model of \<^verbatim>\<open>src/libexpr/primops/context.cc\<close>\<close>

text \<open>
  A store path is an immutable value wrapping its base name. How it is parsed from and
  printed to text is the store's business (see the record \<open>Env\<close> below).
\<close>

datatype StorePath = StorePath string

text \<open>
  \<^verbatim>\<open>NixStringContextElem\<close> is a closed variant with three alternatives:
  \<^verbatim>\<open>Opaque { path }\<close>, \<^verbatim>\<open>DrvDeep { drvPath }\<close> and \<^verbatim>\<open>Built { drvPath, output }\<close>.
\<close>

datatype NixStringContextElem =
    Opaque StorePath
  | DrvDeep StorePath
  | Built StorePath string

text \<open>
  \<^verbatim>\<open>NixStringContext\<close> is an ordered set of elements (the code calls \<^verbatim>\<open>emplace\<close> with a
  single argument and iterates it with a range-for). It is modelled by the list of its
  elements in iteration order. The comparison that fixes this order is declared outside
  \<^verbatim>\<open>context.cc\<close> and is a parameter (\<open>elemLess\<close> of \<open>Env\<close>).
\<close>

type_synonym NixStringContext = "NixStringContextElem list"

text \<open>
  The values of the language, already forced to weak head normal form (thunks, and the
  errors or divergence of forcing them, belong to the evaluator). A string carries its
  context. An attribute set is the list of its bindings: the primitives build it binding
  by binding, look a field up by its name and iterate over the bindings. In which order
  the evaluator keeps the bindings of a finished set is not the business of
  \<^verbatim>\<open>context.cc\<close>; the properties below that iterate over a mapping are stated for a
  position anywhere in it, or for every order. Floats, functions and external values have
  no payload here: the primitives only ever see that they are not strings, attribute
  sets, booleans or lists.
\<close>

datatype Value =
    VInt int
  | VBool bool
  | VString string NixStringContext
  | VPath string
  | VNull
  | VAttrs "(string \<times> Value) list"
  | VList "Value list"
  | VFloat
  | VFunction
  | VExternal

text \<open>
  Every \<^verbatim>\<open>throw\<close> is a value. \<open>TypeError\<close> is what the forcing functions raise on a value
  of the wrong type; the three \<open>EvalError\<close>s that \<^verbatim>\<open>prim_appendContext\<close> throws itself carry
  the offending key: \<^verbatim>\<open>context key '%s' is not a store path\<close>,
  \<^verbatim>\<open>tried to add all-outputs context of %s, which is not a derivation, to a string\<close> and
  \<^verbatim>\<open>tried to add derivation output context of %s, which is not a derivation, to a string\<close>.
  \<open>StringHasContext\<close> is the failure of \<^verbatim>\<open>forceStringNoCtx\<close> on a string that carries context;
  \<open>CoercionError\<close> and \<open>StoreError\<close> are raised by the collaborators only.
\<close>

datatype Error =
    TypeError
  | ContextKeyNotStorePath string
  | AllOutputsNotDerivation string
  | OutputsNotDerivation string
  | StringHasContext
  | CoercionError
  | StoreError

text \<open>
  The collaborators that \<^verbatim>\<open>context.cc\<close> calls and that are declared in other files:
  \<^verbatim>\<open>state.coerceToString\<close> (started on an empty context, so that its result is the text and
  the context it collected), the store's \<^verbatim>\<open>isStorePath\<close>, \<^verbatim>\<open>parseStorePath\<close>,
  \<^verbatim>\<open>printStorePath\<close> and \<^verbatim>\<open>ensurePath\<close> (\<open>None\<close> when it returns, \<open>Some e\<close> when it throws),
  the flag \<^verbatim>\<open>settings.readOnlyMode\<close>, the free function \<^verbatim>\<open>isDerivation\<close> on a file name,
  and the two comparisons that order \<^verbatim>\<open>std::set<NixStringContextElem>\<close> and
  \<^verbatim>\<open>std::map<StorePath, ContextInfo>\<close>. \<^verbatim>\<open>ensurePath\<close> may realise the path in the store;
  nothing in \<^verbatim>\<open>context.cc\<close> reads the contents of the store, so that this effect is not
  part of the model. Every property below is proved for all such collaborators.
\<close>

record Env =
  coerceToString :: "Value \<Rightarrow> Error + (string \<times> NixStringContext)"
  isStorePath :: "string \<Rightarrow> bool"
  parseStorePath :: "string \<Rightarrow> StorePath"
  printStorePath :: "StorePath \<Rightarrow> string"
  ensurePath :: "StorePath \<Rightarrow> Error option"
  readOnlyMode :: bool
  isDerivation :: "string \<Rightarrow> bool"
  elemLess :: "NixStringContextElem \<Rightarrow> NixStringContextElem \<Rightarrow> bool"
  pathLess :: "StorePath \<Rightarrow> StorePath \<Rightarrow> bool"

subsection \<open>Forcing\<close>

text \<open>
  Modelled from the spec: \<^verbatim>\<open>forceString\<close> is defined in the evaluator, not in
  \<^verbatim>\<open>context.cc\<close>. The spec (4.1): it requires the value already be a string (not merely
  coercible), fails with a TypeError otherwise, and yields the text and the context.
\<close>

fun forceString :: "Value \<Rightarrow> Error + (string \<times> NixStringContext)" where
  "forceString (VString s c) = Inr (s, c)"
| "forceString _ = Inl TypeError"

text \<open>
  Modelled from the spec: \<^verbatim>\<open>forceAttrs\<close>, \<^verbatim>\<open>forceBool\<close> and \<^verbatim>\<open>forceList\<close> are
  defined in the evaluator. The spec (6, 7) names them as general value forcing: a value
  required to be of a type and that is not raises a TypeError.
\<close>

fun forceAttrs :: "Value \<Rightarrow> Error + (string \<times> Value) list" where
  "forceAttrs (VAttrs bs) = Inr bs"
| "forceAttrs _ = Inl TypeError"

fun forceBool :: "Value \<Rightarrow> Error + bool" where
  "forceBool (VBool b) = Inr b"
| "forceBool _ = Inl TypeError"

fun forceList :: "Value \<Rightarrow> Error + Value list" where
  "forceList (VList vs) = Inr vs"
| "forceList _ = Inl TypeError"

text \<open>
  Modelled from the spec: \<^verbatim>\<open>forceStringNoCtx\<close> is defined in the evaluator. The spec (4.6,
  step 5): the name is forced as a plain string with no context, and this fails if it
  carries context or is not a string.
\<close>

fun forceStringNoCtx :: "Value \<Rightarrow> Error + string" where
  "forceStringNoCtx (VString s c) = (if c = [] then Inr s else Inl StringHasContext)"
| "forceStringNoCtx _ = Inl TypeError"

subsection \<open>Ordered containers\<close>

text \<open>
  Insertion of a new element into an ordered sequence: after the elements that precede
  it.
\<close>

definition ordered_insert :: "('a \<Rightarrow> bool) \<Rightarrow> 'a \<Rightarrow> 'a list \<Rightarrow> 'a list" where
  "ordered_insert precedes x xs = takeWhile precedes xs @ x # dropWhile precedes xs"

text \<open>\<^verbatim>\<open>context.emplace(c)\<close> on the set: nothing happens when an equal element is there.\<close>

definition emplace :: "Env \<Rightarrow> NixStringContextElem \<Rightarrow> NixStringContext \<Rightarrow> NixStringContext" where
  "emplace env c context =
     (if c \<in> set context then context
      else ordered_insert (\<lambda>y. elemLess env y c) c context)"

text \<open>
  The local \<^verbatim>\<open>struct ContextInfo\<close> of \<^verbatim>\<open>prim_getContext\<close>, with its default member
  initialisers.
\<close>

record ContextInfo =
  path :: bool
  allOutputs :: bool
  outputs :: "string list"

definition ContextInfo_default :: ContextInfo where
  "ContextInfo_default = \<lparr> path = False, allOutputs = False, outputs = [] \<rparr>"

text \<open>
  \<^verbatim>\<open>contextInfos[p]\<close> followed by an assignment through the reference: the entry of \<open>p\<close>
  is created with the default value when missing, then changed by \<open>f\<close>.
\<close>

definition contextInfos_at ::
  "Env \<Rightarrow> StorePath \<Rightarrow> (ContextInfo \<Rightarrow> ContextInfo) \<Rightarrow> (StorePath \<times> ContextInfo) list
     \<Rightarrow> (StorePath \<times> ContextInfo) list" where
  "contextInfos_at env p f m =
     (if p \<in> fst ` set m
      then map (\<lambda>(k, info). if k = p then (k, f info) else (k, info)) m
      else ordered_insert (\<lambda>(k, info). pathLess env k p) (p, f ContextInfo_default) m)"

subsection \<open>The five primitives\<close>

text \<open>
  \<^verbatim>\<open>prim_unsafeDiscardStringContext\<close>: coerce, then \<^verbatim>\<open>v.mkString(*s)\<close> with no context.
\<close>

definition prim_unsafeDiscardStringContext :: "Env \<Rightarrow> Value \<Rightarrow> Error + Value" where
  "prim_unsafeDiscardStringContext env arg =
     (case coerceToString env arg of
        Inl e \<Rightarrow> Inl e
      | Inr (s, context) \<Rightarrow> Inr (VString s []))"

text \<open>\<^verbatim>\<open>prim_hasContext\<close>: \<^verbatim>\<open>forceString\<close>, then \<^verbatim>\<open>v.mkBool(!context.empty())\<close>.\<close>

definition prim_hasContext :: "Value \<Rightarrow> Error + Value" where
  "prim_hasContext arg =
     (case forceString arg of
        Inl e \<Rightarrow> Inl e
      | Inr (s, context) \<Rightarrow> Inr (VBool (context \<noteq> [])))"

text \<open>
  \<^verbatim>\<open>prim_unsafeDiscardOutputDependency\<close>: the body of the loop over \<^verbatim>\<open>context\<close>, which
  fills \<^verbatim>\<open>context2\<close>, and the primitive.
\<close>

fun discard_step :: "Env \<Rightarrow> NixStringContext \<Rightarrow> NixStringContextElem \<Rightarrow> NixStringContext" where
  "discard_step env context2 (DrvDeep drvPath) = emplace env (Opaque drvPath) context2"
| "discard_step env context2 c = emplace env c context2"

definition prim_unsafeDiscardOutputDependency :: "Env \<Rightarrow> Value \<Rightarrow> Error + Value" where
  "prim_unsafeDiscardOutputDependency env arg =
     (case coerceToString env arg of
        Inl e \<Rightarrow> Inl e
      | Inr (s, context) \<Rightarrow> Inr (VString s (foldl (discard_step env) [] context)))"

text \<open>
  \<^verbatim>\<open>prim_getContext\<close>: the visitor of the first loop, the attribute set built for one
  \<^verbatim>\<open>ContextInfo\<close> in the second loop, and the primitive.
\<close>

fun getContext_visit ::
  "Env \<Rightarrow> (StorePath \<times> ContextInfo) list \<Rightarrow> NixStringContextElem \<Rightarrow> (StorePath \<times> ContextInfo) list" where
  "getContext_visit env m (DrvDeep drvPath) =
     contextInfos_at env drvPath (\<lambda>info. info\<lparr>allOutputs := True\<rparr>) m"
| "getContext_visit env m (Built drvPath output) =
     contextInfos_at env drvPath (\<lambda>info. info\<lparr>outputs := outputs info @ [output]\<rparr>) m"
| "getContext_visit env m (Opaque p) =
     contextInfos_at env p (\<lambda>info. info\<lparr>path := True\<rparr>) m"

definition contextInfos :: "Env \<Rightarrow> NixStringContext \<Rightarrow> (StorePath \<times> ContextInfo) list" where
  "contextInfos env context = foldl (getContext_visit env) [] context"

definition infoAttrs :: "ContextInfo \<Rightarrow> (string \<times> Value) list" where
  "infoAttrs info =
     (if path info then [(''path'', VBool True)] else []) @
     (if allOutputs info then [(''allOutputs'', VBool True)] else []) @
     (if outputs info \<noteq> []
      then [(''outputs'', VList (map (\<lambda>output. VString output []) (outputs info)))]
      else [])"

definition prim_getContext :: "Env \<Rightarrow> Value \<Rightarrow> Error + Value" where
  "prim_getContext env arg =
     (case forceString arg of
        Inl e \<Rightarrow> Inl e
      | Inr (s, context) \<Rightarrow>
          Inr (VAttrs (map (\<lambda>(p, info). (printStorePath env p, VAttrs (infoAttrs info)))
                           (contextInfos env context))))"

text \<open>
  \<^verbatim>\<open>prim_appendContext\<close>. \<^verbatim>\<open>attrs->find(sym)\<close> is the lookup in the list of bindings. The
  three blocks of the loop body (\<^verbatim>\<open>path\<close>, \<^verbatim>\<open>allOutputs\<close>, \<^verbatim>\<open>outputs\<close>) are one function
  each; \<open>appendContext_entry\<close> is the whole body and \<open>appendContext_entries\<close> the loop over
  the bindings of the second argument, which stops at the first \<^verbatim>\<open>throw\<close>.
\<close>

definition append_path ::
  "Env \<Rightarrow> StorePath \<Rightarrow> (string \<times> Value) list \<Rightarrow> NixStringContext \<Rightarrow> Error + NixStringContext" where
  "append_path env namePath attrs context =
     (case map_of attrs ''path'' of
        None \<Rightarrow> Inr context
      | Some v \<Rightarrow>
          (case forceBool v of
             Inl e \<Rightarrow> Inl e
           | Inr b \<Rightarrow> Inr (if b then emplace env (Opaque namePath) context else context)))"

definition append_allOutputs ::
  "Env \<Rightarrow> string \<Rightarrow> StorePath \<Rightarrow> (string \<times> Value) list \<Rightarrow> NixStringContext
     \<Rightarrow> Error + NixStringContext" where
  "append_allOutputs env name namePath attrs context =
     (case map_of attrs ''allOutputs'' of
        None \<Rightarrow> Inr context
      | Some v \<Rightarrow>
          (case forceBool v of
             Inl e \<Rightarrow> Inl e
           | Inr b \<Rightarrow>
               if b then
                 (if \<not> isDerivation env name then Inl (AllOutputsNotDerivation name)
                  else Inr (emplace env (DrvDeep namePath) context))
               else Inr context))"

fun append_output_names ::
  "Env \<Rightarrow> StorePath \<Rightarrow> Value list \<Rightarrow> NixStringContext \<Rightarrow> Error + NixStringContext" where
  "append_output_names env namePath [] context = Inr context"
| "append_output_names env namePath (elem # elems) context =
     (case forceStringNoCtx elem of
        Inl e \<Rightarrow> Inl e
      | Inr outputName \<Rightarrow>
          append_output_names env namePath elems (emplace env (Built namePath outputName) context))"

definition append_outputs ::
  "Env \<Rightarrow> string \<Rightarrow> StorePath \<Rightarrow> (string \<times> Value) list \<Rightarrow> NixStringContext
     \<Rightarrow> Error + NixStringContext" where
  "append_outputs env name namePath attrs context =
     (case map_of attrs ''outputs'' of
        None \<Rightarrow> Inr context
      | Some v \<Rightarrow>
          (case forceList v of
             Inl e \<Rightarrow> Inl e
           | Inr elems \<Rightarrow>
               if length elems \<noteq> 0 \<and> \<not> isDerivation env name then Inl (OutputsNotDerivation name)
               else append_output_names env namePath elems context))"

definition appendContext_entry ::
  "Env \<Rightarrow> string \<times> Value \<Rightarrow> NixStringContext \<Rightarrow> Error + NixStringContext" where
  "appendContext_entry env i context =
     (let name = fst i in
      if \<not> isStorePath env name then Inl (ContextKeyNotStorePath name)
      else
        let namePath = parseStorePath env name in
        (case (if \<not> readOnlyMode env then ensurePath env namePath else None) of
           Some e \<Rightarrow> Inl e
         | None \<Rightarrow>
             (case forceAttrs (snd i) of
                Inl e \<Rightarrow> Inl e
              | Inr attrs \<Rightarrow>
                  (case append_path env namePath attrs context of
                     Inl e \<Rightarrow> Inl e
                   | Inr context1 \<Rightarrow>
                       (case append_allOutputs env name namePath attrs context1 of
                          Inl e \<Rightarrow> Inl e
                        | Inr context2 \<Rightarrow>
                            append_outputs env name namePath attrs context2)))))"

fun appendContext_entries ::
  "Env \<Rightarrow> (string \<times> Value) list \<Rightarrow> NixStringContext \<Rightarrow> Error + NixStringContext" where
  "appendContext_entries env [] context = Inr context"
| "appendContext_entries env (i # rest) context =
     (case appendContext_entry env i context of
        Inl e \<Rightarrow> Inl e
      | Inr context' \<Rightarrow> appendContext_entries env rest context')"

definition prim_appendContext :: "Env \<Rightarrow> Value \<Rightarrow> Value \<Rightarrow> Error + Value" where
  "prim_appendContext env arg0 arg1 =
     (case forceString arg0 of
        Inl e \<Rightarrow> Inl e
      | Inr (orig, context) \<Rightarrow>
          (case forceAttrs arg1 of
             Inl e \<Rightarrow> Inl e
           | Inr bindings \<Rightarrow>
               (case appendContext_entries env bindings context of
                  Inl e \<Rightarrow> Inl e
                | Inr context' \<Rightarrow> Inr (VString orig context'))))"

subsection \<open>Vocabulary of the properties\<close>

text \<open>\<^verbatim>\<open>v.type() == nString\<close>: the value is a string.\<close>

fun isString :: "Value \<Rightarrow> bool" where
  "isString (VString s c) = True"
| "isString _ = False"

text \<open>The store path an element refers to (its \<^verbatim>\<open>path\<close> or \<^verbatim>\<open>drvPath\<close> member).\<close>

fun elemPath :: "NixStringContextElem \<Rightarrow> StorePath" where
  "elemPath (Opaque p) = p"
| "elemPath (DrvDeep p) = p"
| "elemPath (Built p output) = p"

fun isDrvDeep :: "NixStringContextElem \<Rightarrow> bool" where
  "isDrvDeep (DrvDeep p) = True"
| "isDrvDeep _ = False"

fun isOpaque :: "NixStringContextElem \<Rightarrow> bool" where
  "isOpaque (Opaque p) = True"
| "isOpaque _ = False"

text \<open>
  The element-wise mapping that the spec (4.4) gives for \<open>discardOutputDependency\<close>:
  DrvDeep becomes Opaque on the same path, Built and Opaque pass through unchanged.
\<close>

fun downgrade :: "NixStringContextElem \<Rightarrow> NixStringContextElem" where
  "downgrade (DrvDeep p) = Opaque p"
| "downgrade c = c"

text \<open>
  The record that the spec (4.5, 6) gives for a path \<open>p\<close> of a context \<open>C\<close>, written from
  the spec's words and compared with \<open>infoAttrs\<close> of the code: \<open>path\<close> is there (and true) iff an
  Opaque element for \<open>p\<close> exists, \<open>allOutputs\<close> iff a DrvDeep element exists, \<open>outputs\<close> iff
  a Built element exists, and then lists the output names of the Built elements for \<open>p\<close>
  in the order of \<open>C\<close>.
\<close>

fun built_outputs :: "StorePath \<Rightarrow> NixStringContext \<Rightarrow> string list" where
  "built_outputs p [] = []"
| "built_outputs p (Built q output # C) =
     (if q = p then output # built_outputs p C else built_outputs p C)"
| "built_outputs p (c # C) = built_outputs p C"

fun has_built :: "StorePath \<Rightarrow> NixStringContext \<Rightarrow> bool" where
  "has_built p [] = False"
| "has_built p (Built q output # C) = (q = p \<or> has_built p C)"
| "has_built p (c # C) = has_built p C"

definition spec_record :: "NixStringContext \<Rightarrow> StorePath \<Rightarrow> (string \<times> Value) list" where
  "spec_record C p =
     (if Opaque p \<in> set C then [(''path'', VBool True)] else []) @
     (if DrvDeep p \<in> set C then [(''allOutputs'', VBool True)] else []) @
     (if has_built p C
      then [(''outputs'', VList (map (\<lambda>output. VString output []) (built_outputs p C)))]
      else [])"

text \<open>
  The elements that the spec (4.6, steps 3 to 5) constructs for one entry of the mapping,
  and for the whole mapping, written from the spec's words: Opaque when \<open>path\<close> is present
  and true, DrvDeep when \<open>allOutputs\<close> is present and true, one Built per name of the list
  \<open>outputs\<close>.
\<close>

fun output_names :: "Value list \<Rightarrow> string list" where
  "output_names [] = []"
| "output_names (VString s c # elems) = s # output_names elems"
| "output_names (v # elems) = output_names elems"

definition entry_elems :: "Env \<Rightarrow> string \<times> Value \<Rightarrow> NixStringContextElem list" where
  "entry_elems env i =
     (case snd i of
        VAttrs attrs \<Rightarrow>
          (if map_of attrs ''path'' = Some (VBool True)
           then [Opaque (parseStorePath env (fst i))] else []) @
          (if map_of attrs ''allOutputs'' = Some (VBool True)
           then [DrvDeep (parseStorePath env (fst i))] else []) @
          (case map_of attrs ''outputs'' of
             Some (VList elems) \<Rightarrow> map (Built (parseStorePath env (fst i))) (output_names elems)
           | _ \<Rightarrow> [])
      | _ \<Rightarrow> [])"

definition new_elems :: "Env \<Rightarrow> (string \<times> Value) list \<Rightarrow> NixStringContextElem list" where
  "new_elems env bindings = concat (map (entry_elems env) bindings)"

text \<open>The bindings of an attribute set without the field \<open>k\<close>.\<close>

definition remove_field :: "string \<Rightarrow> (string \<times> Value) list \<Rightarrow> (string \<times> Value) list" where
  "remove_field k attrs = filter (\<lambda>b. fst b \<noteq> k) attrs"

text \<open>
  The first loop of \<^verbatim>\<open>prim_getContext\<close>, seen from the context it has visited: what one
  visit does to the entry of the element's path, the entry that the visits of \<open>C\<close> leave
  for \<open>p\<close>, and the invariant of the loop (one entry per path of \<open>C\<close>, each with that
  content).
\<close>

fun visit_update :: "NixStringContextElem \<Rightarrow> ContextInfo \<Rightarrow> ContextInfo" where
  "visit_update (DrvDeep drvPath) info = info\<lparr>allOutputs := True\<rparr>"
| "visit_update (Built drvPath output) info = info\<lparr>outputs := outputs info @ [output]\<rparr>"
| "visit_update (Opaque p) info = info\<lparr>path := True\<rparr>"

definition spec_info :: "NixStringContext \<Rightarrow> StorePath \<Rightarrow> ContextInfo" where
  "spec_info C p =
     \<lparr> path = (Opaque p \<in> set C), allOutputs = (DrvDeep p \<in> set C),
       outputs = built_outputs p C \<rparr>"

definition contextInfos_inv :: "(StorePath \<times> ContextInfo) list \<Rightarrow> NixStringContext \<Rightarrow> bool" where
  "contextInfos_inv m C =
     (distinct (map fst m) \<and> fst ` set m = elemPath ` set C
      \<and> (\<forall>(k, info) \<in> set m. info = spec_info C k))"

subsection \<open>A small store, to run the primitives on concrete inputs\<close>

text \<open>
  Store paths live under \<^verbatim>\<open>/nix/store/\<close>, a derivation is a file name ending in
  \<^verbatim>\<open>.drv\<close>, every path is already present in the store. A string coerces to itself and an
  attribute set with a string \<^verbatim>\<open>outPath\<close> coerces to it. Elements are ordered by
  alternative, then by their members.
\<close>

fun string_less :: "string \<Rightarrow> string \<Rightarrow> bool" where
  "string_less [] [] = False"
| "string_less [] (y # ys) = True"
| "string_less (x # xs) [] = False"
| "string_less (x # xs) (y # ys) =
     ((of_char x :: nat) < of_char y \<or> (x = y \<and> string_less xs ys))"

fun example_pathLess :: "StorePath \<Rightarrow> StorePath \<Rightarrow> bool" where
  "example_pathLess (StorePath a) (StorePath b) = string_less a b"

fun example_elemLess :: "NixStringContextElem \<Rightarrow> NixStringContextElem \<Rightarrow> bool" where
  "example_elemLess (Opaque p) (Opaque q) = example_pathLess p q"
| "example_elemLess (Opaque p) _ = True"
| "example_elemLess (DrvDeep p) (Opaque q) = False"
| "example_elemLess (DrvDeep p) (DrvDeep q) = example_pathLess p q"
| "example_elemLess (DrvDeep p) (Built q r) = True"
| "example_elemLess (Built p s) (Built q r) =
     (example_pathLess p q \<or> (p = q \<and> string_less s r))"
| "example_elemLess (Built p s) _ = False"

fun example_coerceToString :: "Value \<Rightarrow> Error + (string \<times> NixStringContext)" where
  "example_coerceToString (VString s c) = Inr (s, c)"
| "example_coerceToString (VAttrs bs) =
     (case map_of bs ''outPath'' of
        Some (VString s c) \<Rightarrow> Inr (s, c)
      | _ \<Rightarrow> Inl CoercionError)"
| "example_coerceToString _ = Inl CoercionError"

fun example_printStorePath :: "StorePath \<Rightarrow> string" where
  "example_printStorePath (StorePath baseName) = ''/nix/store/'' @ baseName"

definition example_isStorePath :: "string \<Rightarrow> bool" where
  "example_isStorePath s =
     (take 11 s = ''/nix/store/'' \<and> drop 11 s \<noteq> [] \<and> CHR ''/'' \<notin> set (drop 11 s))"

definition example_isDerivation :: "string \<Rightarrow> bool" where
  "example_isDerivation fileName = (drop (length fileName - 4) fileName = ''.drv'')"

definition example_env :: Env where
  "example_env =
     \<lparr> coerceToString = example_coerceToString,
       isStorePath = example_isStorePath,
       parseStorePath = (\<lambda>s. StorePath (drop 11 s)),
       printStorePath = example_printStorePath,
       ensurePath = (\<lambda>p. None),
       readOnlyMode = False,
       isDerivation = example_isDerivation,
       elemLess = example_elemLess,
       pathLess = example_pathLess \<rparr>"

section \<open>Properties\<close>

subsection \<open>The ordered set\<close>

lemma set_ordered_insert: "set (ordered_insert b x xs) = insert x (set xs)"
proof -
  have "set (takeWhile b xs) \<union> set (dropWhile b xs) = set xs"
    by (metis set_append takeWhile_dropWhile_id)
  then show ?thesis by (auto simp: ordered_insert_def)
qed

lemma distinct_ordered_insert:
  assumes d: "distinct xs" and n: "x \<notin> set xs"
  shows "distinct (ordered_insert b x xs)"
proof -
  have "distinct (takeWhile b xs @ dropWhile b xs)" using d by simp
  then have "distinct (takeWhile b xs)" "distinct (dropWhile b xs)"
    "set (takeWhile b xs) \<inter> set (dropWhile b xs) = {}"
    unfolding distinct_append by blast+
  moreover have "x \<notin> set (takeWhile b xs)" "x \<notin> set (dropWhile b xs)"
    using n by (auto dest: set_takeWhileD set_dropWhileD)
  ultimately show ?thesis by (auto simp: ordered_insert_def)
qed

lemma set_emplace: "set (emplace env c cs) = insert c (set cs)"
  by (auto simp: emplace_def set_ordered_insert)

lemma distinct_emplace: "distinct cs \<Longrightarrow> distinct (emplace env c cs)"
  by (simp add: emplace_def distinct_ordered_insert)

subsection \<open>\<^verbatim>\<open>unsafeDiscardStringContext\<close>\<close>

text \<open>
  C9: for every value that coerces to a string, with text \<open>s\<close> and whatever context,
  \<^verbatim>\<open>unsafeDiscardStringContext\<close> returns the string with the text \<open>s\<close> and the empty
  context.
\<close>

theorem discardContext_empty_context:
  "coerceToString env arg = Inr (s, cs) \<Longrightarrow>
   prim_unsafeDiscardStringContext env arg = Inr (VString s [])"
  by (simp add: prim_unsafeDiscardStringContext_def)

theorem discardContext_empty_context_witness:
  "coerceToString example_env
     (VAttrs [(''outPath'', VString ''/nix/store/a-src'' [Opaque (StorePath ''a-src'')])])
     = Inr (''/nix/store/a-src'', [Opaque (StorePath ''a-src'')])
   \<and> prim_unsafeDiscardStringContext example_env
     (VAttrs [(''outPath'', VString ''/nix/store/a-src'' [Opaque (StorePath ''a-src'')])])
     = Inr (VString ''/nix/store/a-src'' [])"
  using discardContext_empty_context [of example_env
     "VAttrs [(''outPath'', VString ''/nix/store/a-src'' [Opaque (StorePath ''a-src'')])]"
     "''/nix/store/a-src''" "[Opaque (StorePath ''a-src'')]"]
  by (simp add: example_env_def)

subsection \<open>\<^verbatim>\<open>hasContext\<close>\<close>

text \<open>
  C7: \<^verbatim>\<open>hasContext\<close> fails with a TypeError on every value that is not a string (it does
  not take the coercion function at all), and on a string it returns true iff the context
  of the string is not empty.
\<close>

theorem hasContext_strict_nonempty:
  "(\<not> isString arg \<longrightarrow> prim_hasContext arg = Inl TypeError) \<and>
   prim_hasContext (VString s cs) = Inr (VBool (cs \<noteq> []))"
  by (cases arg) (simp_all add: prim_hasContext_def)

theorem hasContext_strict_nonempty_witness:
  "\<not> isString (VInt 1) \<and> prim_hasContext (VInt 1) = Inl TypeError \<and>
   prim_hasContext (VString ''a'' [Opaque (StorePath ''a-src'')]) = Inr (VBool True)"
  using hasContext_strict_nonempty [of "VInt 1" "''a''" "[Opaque (StorePath ''a-src'')]"]
  by simp

subsection \<open>\<^verbatim>\<open>unsafeDiscardOutputDependency\<close>\<close>

lemma set_discard_step: "set (discard_step env context2 c) = insert (downgrade c) (set context2)"
  by (cases c) (simp_all add: set_emplace)

lemma set_discard_loop:
  "set (foldl (discard_step env) context2 cs) = set context2 \<union> downgrade ` set cs"
  by (induction cs arbitrary: context2) (auto simp: set_discard_step)

lemma downgrade_id: "\<not> isDrvDeep c \<Longrightarrow> downgrade c = c"
  by (cases c) simp_all

lemma downgrade_not_DrvDeep: "downgrade c \<noteq> DrvDeep P"
  by (cases c) simp_all

text \<open>
  C4: when the argument coerces to the text \<open>s\<close> with a context that holds a DrvDeep
  element for \<open>P\<close>, \<^verbatim>\<open>unsafeDiscardOutputDependency\<close> returns a string with the text \<open>s\<close>
  whose context holds no DrvDeep element for \<open>P\<close>, holds the Opaque element for \<open>P\<close>, and
  holds every element of the original context that is not a DrvDeep (every Built and
  every Opaque), unchanged.
\<close>

theorem discardOutputDependency_downgrades:
  assumes "coerceToString env arg = Inr (s, cs)" and "DrvDeep P \<in> set cs"
  shows "\<exists>context2. prim_unsafeDiscardOutputDependency env arg = Inr (VString s context2)
    \<and> DrvDeep P \<notin> set context2 \<and> Opaque P \<in> set context2
    \<and> (\<forall>c \<in> set cs. \<not> isDrvDeep c \<longrightarrow> c \<in> set context2)"
proof -
  let ?c2 = "foldl (discard_step env) [] cs"
  have r: "prim_unsafeDiscardOutputDependency env arg = Inr (VString s ?c2)"
    using assms(1) by (simp add: prim_unsafeDiscardOutputDependency_def)
  have s: "set ?c2 = downgrade ` set cs" by (simp add: set_discard_loop)
  have a: "DrvDeep P \<notin> set ?c2"
  proof
    assume "DrvDeep P \<in> set ?c2"
    then obtain c where "downgrade c = DrvDeep P" using s by auto
    then show False by (simp add: downgrade_not_DrvDeep)
  qed
  have "downgrade (DrvDeep P) \<in> set ?c2" using assms(2) s by blast
  then have b: "Opaque P \<in> set ?c2" by simp
  have c: "\<forall>c \<in> set cs. \<not> isDrvDeep c \<longrightarrow> c \<in> set ?c2"
  proof (intro ballI impI)
    fix c assume m: "c \<in> set cs" and "\<not> isDrvDeep c"
    then have "downgrade c = c" by (simp add: downgrade_id)
    moreover have "downgrade c \<in> set ?c2" using m s by blast
    ultimately show "c \<in> set ?c2" by simp
  qed
  show ?thesis using r a b c by blast
qed

theorem discardOutputDependency_downgrades_witness:
  "coerceToString example_env
     (VString ''x'' [Opaque (StorePath ''a-src''), DrvDeep (StorePath ''b.drv''),
                     Built (StorePath ''b.drv'') ''out''])
     = Inr (''x'', [Opaque (StorePath ''a-src''), DrvDeep (StorePath ''b.drv''),
                    Built (StorePath ''b.drv'') ''out''])
   \<and> DrvDeep (StorePath ''b.drv'')
       \<in> set [Opaque (StorePath ''a-src''), DrvDeep (StorePath ''b.drv''),
              Built (StorePath ''b.drv'') ''out'']
   \<and> (\<exists>context2.
        prim_unsafeDiscardOutputDependency example_env
          (VString ''x'' [Opaque (StorePath ''a-src''), DrvDeep (StorePath ''b.drv''),
                          Built (StorePath ''b.drv'') ''out''])
          = Inr (VString ''x'' context2)
        \<and> DrvDeep (StorePath ''b.drv'') \<notin> set context2
        \<and> Opaque (StorePath ''b.drv'') \<in> set context2
        \<and> Opaque (StorePath ''a-src'') \<in> set context2
        \<and> Built (StorePath ''b.drv'') ''out'' \<in> set context2)"
  using discardOutputDependency_downgrades [of example_env
     "VString ''x'' [Opaque (StorePath ''a-src''), DrvDeep (StorePath ''b.drv''),
                     Built (StorePath ''b.drv'') ''out'']"
     "''x''"
     "[Opaque (StorePath ''a-src''), DrvDeep (StorePath ''b.drv''),
       Built (StorePath ''b.drv'') ''out'']"
     "StorePath ''b.drv''"]
  by (simp add: example_env_def)

subsection \<open>\<^verbatim>\<open>appendContext\<close>\<close>

lemma appendContext_entries_append:
  "appendContext_entries env (pre @ rest) cs =
     (case appendContext_entries env pre cs of
        Inl e \<Rightarrow> Inl e
      | Inr cs' \<Rightarrow> appendContext_entries env rest cs')"
  by (induction pre arbitrary: cs) (auto split: sum.splits)

text \<open>
  C3, as amended: \<^verbatim>\<open>appendContext\<close> forces its first argument with \<^verbatim>\<open>forceString\<close>, it does
  not coerce it. On a string and the empty mapping it returns the string as it is, text
  and context; on every value that is not a string, coercible or not, and whatever the
  mapping, it fails with a TypeError.
\<close>

theorem appendContext_forces_string:
  "prim_appendContext env (VString s cs) (VAttrs []) = Inr (VString s cs)
   \<and> (\<not> isString arg0 \<longrightarrow> prim_appendContext env arg0 arg1 = Inl TypeError)"
  by (cases arg0) (simp_all add: prim_appendContext_def)

theorem appendContext_forces_string_witness:
  "prim_appendContext example_env (VString ''x'' [Opaque (StorePath ''a-src'')]) (VAttrs [])
     = Inr (VString ''x'' [Opaque (StorePath ''a-src'')])
   \<and> \<not> isString (VPath ''/tmp/x'')
   \<and> prim_appendContext example_env (VPath ''/tmp/x'') (VAttrs []) = Inl TypeError"
  using appendContext_forces_string [of example_env "''x''" "[Opaque (StorePath ''a-src'')]"
      "VPath ''/tmp/x''" "VAttrs []"]
  by simp

text \<open>
  The claim C3 as it was stated fails: an attribute set with an \<^verbatim>\<open>outPath\<close> coerces to a
  string, it is not a string, and \<^verbatim>\<open>appendContext\<close> with the empty mapping fails on it with
  a TypeError.
\<close>

theorem appendContext_coercible_counterexample:
  "coerceToString example_env (VAttrs [(''outPath'', VString ''/nix/store/a-src'' [])])
     = Inr (''/nix/store/a-src'', [])
   \<and> \<not> isString (VAttrs [(''outPath'', VString ''/nix/store/a-src'' [])])
   \<and> prim_appendContext example_env
        (VAttrs [(''outPath'', VString ''/nix/store/a-src'' [])]) (VAttrs [])
     = Inl TypeError"
  by (simp add: example_env_def prim_appendContext_def)

text \<open>
  C8: when the loop reaches an entry (the first argument is a string and the entries
  before it were processed without error) whose key is not a store path,
  \<^verbatim>\<open>appendContext\<close> fails with the error "context key is not a store path" for that key.
  The value \<open>v\<close> of the entry is arbitrary: the key is tested before the value is forced
  and before any of its fields is looked at, and before the store is asked for the path.
\<close>

theorem appendContext_key_not_store_path:
  assumes "\<not> isStorePath env name" and "appendContext_entries env pre cs = Inr cs1"
  shows "prim_appendContext env (VString s cs) (VAttrs (pre @ (name, v) # post))
           = Inl (ContextKeyNotStorePath name)"
  using assms
  by (simp add: prim_appendContext_def appendContext_entries_append appendContext_entry_def)

theorem appendContext_key_not_store_path_witness:
  "\<not> isStorePath example_env ''not-a-path''
   \<and> appendContext_entries example_env
        [(''/nix/store/a-src'', VAttrs [(''path'', VBool True)])] []
        = Inr [Opaque (StorePath ''a-src'')]
   \<and> prim_appendContext example_env (VString ''x'' [])
        (VAttrs [(''/nix/store/a-src'', VAttrs [(''path'', VBool True)]),
                 (''not-a-path'', VAttrs [(''path'', VInt 1)])])
        = Inl (ContextKeyNotStorePath ''not-a-path'')"
proof -
  have h1: "\<not> isStorePath example_env ''not-a-path''"
    by (simp add: example_env_def example_isStorePath_def)
  have h2: "appendContext_entries example_env
        [(''/nix/store/a-src'', VAttrs [(''path'', VBool True)])] []
        = Inr [Opaque (StorePath ''a-src'')]"
    by code_simp
  show ?thesis
    using h1 h2
      appendContext_key_not_store_path [OF h1 h2, of "''x''" "VAttrs [(''path'', VInt 1)]" "[]"]
    by simp
qed

lemma map_of_remove_field:
  "map_of (remove_field k attrs) k' = (if k' = k then None else map_of attrs k')"
  by (induction attrs) (auto simp: remove_field_def)

lemma append_path_false:
  "map_of attrs ''path'' = Some (VBool False) \<Longrightarrow> append_path env np attrs c = Inr c"
  by (simp add: append_path_def)

lemma append_allOutputs_false:
  "map_of attrs ''allOutputs'' = Some (VBool False) \<Longrightarrow>
   append_allOutputs env name np attrs c = Inr c"
  by (simp add: append_allOutputs_def)

lemma append_outputs_empty:
  "map_of attrs ''outputs'' = Some (VList []) \<Longrightarrow> append_outputs env name np attrs c = Inr c"
  by (simp add: append_outputs_def)

lemma append_path_remove_field:
  "k \<noteq> ''path'' \<or> map_of attrs ''path'' = Some (VBool False) \<Longrightarrow>
   append_path env np (remove_field k attrs) c = append_path env np attrs c"
  by (auto simp: append_path_def map_of_remove_field)

lemma append_allOutputs_remove_field:
  "k \<noteq> ''allOutputs'' \<or> map_of attrs ''allOutputs'' = Some (VBool False) \<Longrightarrow>
   append_allOutputs env name np (remove_field k attrs) c = append_allOutputs env name np attrs c"
  by (auto simp: append_allOutputs_def map_of_remove_field)

lemma append_outputs_remove_field:
  "k \<noteq> ''outputs'' \<or> map_of attrs ''outputs'' = Some (VList []) \<Longrightarrow>
   append_outputs env name np (remove_field k attrs) c = append_outputs env name np attrs c"
  by (auto simp: append_outputs_def map_of_remove_field)

lemma appendContext_entry_remove_field:
  assumes "k \<noteq> ''path'' \<or> map_of attrs ''path'' = Some (VBool False)"
    and "k \<noteq> ''allOutputs'' \<or> map_of attrs ''allOutputs'' = Some (VBool False)"
    and "k \<noteq> ''outputs'' \<or> map_of attrs ''outputs'' = Some (VList [])"
  shows "appendContext_entry env (name, VAttrs (remove_field k attrs)) c
       = appendContext_entry env (name, VAttrs attrs) c"
  by (simp add: appendContext_entry_def Let_def
        append_path_remove_field [OF assms(1)]
        append_allOutputs_remove_field [OF assms(2)]
        append_outputs_remove_field [OF assms(3)]
      cong: sum.case_cong option.case_cong if_cong)

lemma prim_appendContext_entry_cong:
  assumes "\<And>c. appendContext_entry env e c = appendContext_entry env e' c"
  shows "prim_appendContext env arg0 (VAttrs (pre @ e # post))
       = prim_appendContext env arg0 (VAttrs (pre @ e' # post))"
proof -
  have k: "\<And>c. appendContext_entries env (pre @ e # post) c
              = appendContext_entries env (pre @ e' # post) c"
    by (simp add: appendContext_entries_append assms split: sum.splits)
  show ?thesis by (cases arg0) (simp_all add: prim_appendContext_def k)
qed

lemma appendContext_entry_path_only:
  assumes "isStorePath env name"
    and "readOnlyMode env \<or> ensurePath env (parseStorePath env name) = None"
    and "map_of attrs ''path'' = None \<or> (\<exists>b. map_of attrs ''path'' = Some (VBool b))"
    and "map_of attrs ''allOutputs'' = None \<or> map_of attrs ''allOutputs'' = Some (VBool False)"
    and "map_of attrs ''outputs'' = None \<or> map_of attrs ''outputs'' = Some (VList [])"
  shows "appendContext_entry env (name, VAttrs attrs) c =
     Inr (if map_of attrs ''path'' = Some (VBool True)
          then emplace env (Opaque (parseStorePath env name)) c else c)"
proof -
  let ?c1 = "if map_of attrs ''path'' = Some (VBool True)
          then emplace env (Opaque (parseStorePath env name)) c else c"
  have p: "append_path env (parseStorePath env name) attrs c = Inr ?c1"
    using assms(3) by (auto simp: append_path_def)
  have a: "append_allOutputs env name (parseStorePath env name) attrs ?c1 = Inr ?c1"
    using assms(4) by (auto simp: append_allOutputs_def)
  have b: "append_outputs env name (parseStorePath env name) attrs ?c1 = Inr ?c1"
    using assms(5) by (auto simp: append_outputs_def)
  show ?thesis using assms(1,2) p a b
    by (auto simp: appendContext_entry_def Let_def)
qed

text \<open>
  C10, field by field, for every key (a derivation or not) and whatever the other fields
  of the entry are:
  \<^item> \<open>allOutputs\<close> present but false: the \<open>allOutputs\<close> block of the loop body returns the
    context unchanged without asking whether the key is a derivation, and
    \<^verbatim>\<open>appendContext\<close> gives the same result, success or error, as on the mapping in
    which the entry has no \<open>allOutputs\<close> field;
  \<^item> \<open>outputs\<close> present but the empty list: the same for the \<open>outputs\<close> block and field;
  \<^item> \<open>path\<close> present but false: the same for the \<open>path\<close> block and field, so that no
    Opaque element is added.

  Moreover, on an entry whose key is a store path that the store can ensure (or the
  read-only mode), with \<open>allOutputs\<close> absent or false, \<open>outputs\<close> absent or empty and
  \<open>path\<close> absent or any boolean, \<^verbatim>\<open>appendContext\<close> succeeds: the result is the string with
  the Opaque element of the key added when \<open>path\<close> is true, and the string unchanged
  otherwise; in the latter case the entry can be dropped from any mapping without
  changing the result.
\<close>

theorem appendContext_false_or_empty_fields:
  "(map_of attrs ''allOutputs'' = Some (VBool False) \<longrightarrow>
      append_allOutputs env name (parseStorePath env name) attrs cs = Inr cs
      \<and> prim_appendContext env arg (VAttrs (pre @ (name, VAttrs attrs) # post))
        = prim_appendContext env arg
            (VAttrs (pre @ (name, VAttrs (remove_field ''allOutputs'' attrs)) # post)))
   \<and> (map_of attrs ''outputs'' = Some (VList []) \<longrightarrow>
      append_outputs env name (parseStorePath env name) attrs cs = Inr cs
      \<and> prim_appendContext env arg (VAttrs (pre @ (name, VAttrs attrs) # post))
        = prim_appendContext env arg
            (VAttrs (pre @ (name, VAttrs (remove_field ''outputs'' attrs)) # post)))
   \<and> (map_of attrs ''path'' = Some (VBool False) \<longrightarrow>
      append_path env (parseStorePath env name) attrs cs = Inr cs
      \<and> prim_appendContext env arg (VAttrs (pre @ (name, VAttrs attrs) # post))
        = prim_appendContext env arg
            (VAttrs (pre @ (name, VAttrs (remove_field ''path'' attrs)) # post)))
   \<and> (isStorePath env name
      \<and> (readOnlyMode env \<or> ensurePath env (parseStorePath env name) = None)
      \<and> (map_of attrs ''path'' = None \<or> (\<exists>b. map_of attrs ''path'' = Some (VBool b)))
      \<and> (map_of attrs ''allOutputs'' = None \<or> map_of attrs ''allOutputs'' = Some (VBool False))
      \<and> (map_of attrs ''outputs'' = None \<or> map_of attrs ''outputs'' = Some (VList [])) \<longrightarrow>
      prim_appendContext env (VString s cs) (VAttrs [(name, VAttrs attrs)])
        = Inr (VString s (if map_of attrs ''path'' = Some (VBool True)
                          then emplace env (Opaque (parseStorePath env name)) cs else cs))
      \<and> (map_of attrs ''path'' \<noteq> Some (VBool True) \<longrightarrow>
           prim_appendContext env arg (VAttrs (pre @ (name, VAttrs attrs) # post))
           = prim_appendContext env arg (VAttrs (pre @ post))))"
proof -
  have A: "prim_appendContext env arg (VAttrs (pre @ (name, VAttrs attrs) # post))
        = prim_appendContext env arg
            (VAttrs (pre @ (name, VAttrs (remove_field ''allOutputs'' attrs)) # post))"
    if "map_of attrs ''allOutputs'' = Some (VBool False)"
    by (rule prim_appendContext_entry_cong [symmetric])
       (rule appendContext_entry_remove_field, simp_all add: that)
  have B: "prim_appendContext env arg (VAttrs (pre @ (name, VAttrs attrs) # post))
        = prim_appendContext env arg
            (VAttrs (pre @ (name, VAttrs (remove_field ''outputs'' attrs)) # post))"
    if "map_of attrs ''outputs'' = Some (VList [])"
    by (rule prim_appendContext_entry_cong [symmetric])
       (rule appendContext_entry_remove_field, simp_all add: that)
  have C: "prim_appendContext env arg (VAttrs (pre @ (name, VAttrs attrs) # post))
        = prim_appendContext env arg
            (VAttrs (pre @ (name, VAttrs (remove_field ''path'' attrs)) # post))"
    if "map_of attrs ''path'' = Some (VBool False)"
    by (rule prim_appendContext_entry_cong [symmetric])
       (rule appendContext_entry_remove_field, simp_all add: that)
  have D: "prim_appendContext env (VString s cs) (VAttrs [(name, VAttrs attrs)])
        = Inr (VString s (if map_of attrs ''path'' = Some (VBool True)
                          then emplace env (Opaque (parseStorePath env name)) cs else cs))
      \<and> (map_of attrs ''path'' \<noteq> Some (VBool True) \<longrightarrow>
           prim_appendContext env arg (VAttrs (pre @ (name, VAttrs attrs) # post))
           = prim_appendContext env arg (VAttrs (pre @ post)))"
    if h: "isStorePath env name"
      "readOnlyMode env \<or> ensurePath env (parseStorePath env name) = None"
      "map_of attrs ''path'' = None \<or> (\<exists>b. map_of attrs ''path'' = Some (VBool b))"
      "map_of attrs ''allOutputs'' = None \<or> map_of attrs ''allOutputs'' = Some (VBool False)"
      "map_of attrs ''outputs'' = None \<or> map_of attrs ''outputs'' = Some (VList [])"
  proof -
    note e = appendContext_entry_path_only [OF h]
    have 1: "prim_appendContext env (VString s cs) (VAttrs [(name, VAttrs attrs)])
        = Inr (VString s (if map_of attrs ''path'' = Some (VBool True)
                          then emplace env (Opaque (parseStorePath env name)) cs else cs))"
      by (simp add: prim_appendContext_def e)
    have 2: "prim_appendContext env arg (VAttrs (pre @ (name, VAttrs attrs) # post))
           = prim_appendContext env arg (VAttrs (pre @ post))"
      if n: "map_of attrs ''path'' \<noteq> Some (VBool True)"
    proof -
      have k: "\<And>c. appendContext_entries env (pre @ (name, VAttrs attrs) # post) c
           = appendContext_entries env (pre @ post) c"
        using n by (simp add: appendContext_entries_append e split: sum.splits)
      show ?thesis by (cases arg) (simp_all add: prim_appendContext_def k)
    qed
    show ?thesis using 1 2 by blast
  qed
  show ?thesis
    using A B C D
    by (intro conjI impI)
       (simp_all add: append_allOutputs_false append_outputs_empty append_path_false)
qed

theorem appendContext_false_or_empty_fields_witness:
  "isStorePath example_env ''/nix/store/a-src''
   \<and> \<not> isDerivation example_env ''/nix/store/a-src''
   \<and> ensurePath example_env (parseStorePath example_env ''/nix/store/a-src'') = None
   \<and> prim_appendContext example_env (VString ''x'' [])
        (VAttrs [(''/nix/store/a-src'',
                  VAttrs [(''path'', VBool True), (''allOutputs'', VBool False)])])
       = Inr (VString ''x'' [Opaque (StorePath ''a-src'')])
   \<and> prim_appendContext example_env (VString ''x'' [])
        (VAttrs [(''/nix/store/a-src'',
                  VAttrs [(''path'', VBool True), (''allOutputs'', VBool False)])])
       = prim_appendContext example_env (VString ''x'' [])
           (VAttrs [(''/nix/store/a-src'', VAttrs [(''path'', VBool True)])])
   \<and> prim_appendContext example_env (VString ''x'' [])
        (VAttrs [(''/nix/store/a-src'',
                  VAttrs [(''path'', VBool True), (''outputs'', VList [])])])
       = prim_appendContext example_env (VString ''x'' [])
           (VAttrs [(''/nix/store/a-src'', VAttrs [(''path'', VBool True)])])
   \<and> prim_appendContext example_env (VString ''x'' [])
        (VAttrs [(''/nix/store/a-src'',
                  VAttrs [(''path'', VBool False), (''allOutputs'', VBool True)])])
       = prim_appendContext example_env (VString ''x'' [])
           (VAttrs [(''/nix/store/a-src'', VAttrs [(''allOutputs'', VBool True)])])
   \<and> prim_appendContext example_env (VString ''x'' [Opaque (StorePath ''c-src'')])
        (VAttrs [(''/nix/store/a-src'',
                  VAttrs [(''path'', VBool False), (''allOutputs'', VBool False),
                          (''outputs'', VList [])])])
       = Inr (VString ''x'' [Opaque (StorePath ''c-src'')])
   \<and> prim_appendContext example_env (VString ''x'' [])
        (VAttrs [(''/nix/store/a-src'',
                  VAttrs [(''path'', VBool False), (''allOutputs'', VBool False),
                          (''outputs'', VList [])]),
                 (''/nix/store/b.drv'', VAttrs [(''allOutputs'', VBool True)])])
       = prim_appendContext example_env (VString ''x'' [])
           (VAttrs [(''/nix/store/b.drv'', VAttrs [(''allOutputs'', VBool True)])])"
proof -
  have h1: "isStorePath example_env ''/nix/store/a-src''"
    by (simp add: example_env_def example_isStorePath_def)
  have h3: "\<not> isDerivation example_env ''/nix/store/a-src''"
    by (simp add: example_env_def example_isDerivation_def)
  have h4: "ensurePath example_env (parseStorePath example_env ''/nix/store/a-src'') = None"
    by (simp add: example_env_def)
  have p: "parseStorePath example_env ''/nix/store/a-src'' = StorePath ''a-src''"
    by (simp add: example_env_def)
  have 1: "prim_appendContext example_env (VString ''x'' [])
        (VAttrs [(''/nix/store/a-src'',
                  VAttrs [(''path'', VBool True), (''allOutputs'', VBool False)])])
       = Inr (VString ''x'' [Opaque (StorePath ''a-src'')])
     \<and> prim_appendContext example_env (VString ''x'' [])
        (VAttrs [(''/nix/store/a-src'',
                  VAttrs [(''path'', VBool True), (''allOutputs'', VBool False)])])
       = prim_appendContext example_env (VString ''x'' [])
           (VAttrs [(''/nix/store/a-src'', VAttrs [(''path'', VBool True)])])"
    using h1 h4 p
      appendContext_false_or_empty_fields [where env = example_env
        and name = "''/nix/store/a-src''"
        and attrs = "[(''path'', VBool True), (''allOutputs'', VBool False)]"
        and s = "''x''" and cs = "[]" and arg = "VString ''x'' []" and pre = "[]" and post = "[]"]
    by (auto simp: remove_field_def emplace_def ordered_insert_def)
  have 2: "prim_appendContext example_env (VString ''x'' [])
        (VAttrs [(''/nix/store/a-src'',
                  VAttrs [(''path'', VBool True), (''outputs'', VList [])])])
       = prim_appendContext example_env (VString ''x'' [])
           (VAttrs [(''/nix/store/a-src'', VAttrs [(''path'', VBool True)])])"
    using appendContext_false_or_empty_fields [where env = example_env
        and name = "''/nix/store/a-src''"
        and attrs = "[(''path'', VBool True), (''outputs'', VList [])]"
        and s = "''x''" and cs = "[]" and arg = "VString ''x'' []" and pre = "[]" and post = "[]"]
    by (simp add: remove_field_def)
  have 3: "prim_appendContext example_env (VString ''x'' [])
        (VAttrs [(''/nix/store/a-src'',
                  VAttrs [(''path'', VBool False), (''allOutputs'', VBool True)])])
       = prim_appendContext example_env (VString ''x'' [])
           (VAttrs [(''/nix/store/a-src'', VAttrs [(''allOutputs'', VBool True)])])"
    using appendContext_false_or_empty_fields [where env = example_env
        and name = "''/nix/store/a-src''"
        and attrs = "[(''path'', VBool False), (''allOutputs'', VBool True)]"
        and s = "''x''" and cs = "[]" and arg = "VString ''x'' []" and pre = "[]" and post = "[]"]
    by (simp add: remove_field_def)
  have 4: "prim_appendContext example_env (VString ''x'' [Opaque (StorePath ''c-src'')])
        (VAttrs [(''/nix/store/a-src'',
                  VAttrs [(''path'', VBool False), (''allOutputs'', VBool False),
                          (''outputs'', VList [])])])
       = Inr (VString ''x'' [Opaque (StorePath ''c-src'')])
     \<and> prim_appendContext example_env (VString ''x'' [])
        (VAttrs [(''/nix/store/a-src'',
                  VAttrs [(''path'', VBool False), (''allOutputs'', VBool False),
                          (''outputs'', VList [])]),
                 (''/nix/store/b.drv'', VAttrs [(''allOutputs'', VBool True)])])
       = prim_appendContext example_env (VString ''x'' [])
           (VAttrs [(''/nix/store/b.drv'', VAttrs [(''allOutputs'', VBool True)])])"
    using h1 h4
      appendContext_false_or_empty_fields [where env = example_env
        and name = "''/nix/store/a-src''"
        and attrs = "[(''path'', VBool False), (''allOutputs'', VBool False),
                      (''outputs'', VList [])]"
        and s = "''x''" and cs = "[Opaque (StorePath ''c-src'')]"
        and arg = "VString ''x'' []" and pre = "[]"
        and post = "[(''/nix/store/b.drv'', VAttrs [(''allOutputs'', VBool True)])]"]
    by auto
  show ?thesis using h1 h3 h4 1 2 3 4 by blast
qed

lemma append_path_set:
  assumes "append_path env np attrs cs = Inr cs'"
  shows "set cs' = set cs \<union> (if map_of attrs ''path'' = Some (VBool True) then {Opaque np} else {})
    \<and> (distinct cs \<longrightarrow> distinct cs')"
proof (cases "map_of attrs ''path''")
  case None
  then show ?thesis using assms by (simp add: append_path_def)
next
  case (Some v)
  then show ?thesis using assms
    by (cases v) (auto simp: append_path_def set_emplace distinct_emplace split: if_splits)
qed

lemma append_allOutputs_set:
  assumes "append_allOutputs env name np attrs cs = Inr cs'"
  shows "set cs' = set cs \<union> (if map_of attrs ''allOutputs'' = Some (VBool True) then {DrvDeep np} else {})
    \<and> (distinct cs \<longrightarrow> distinct cs')"
proof (cases "map_of attrs ''allOutputs''")
  case None
  then show ?thesis using assms by (simp add: append_allOutputs_def)
next
  case (Some v)
  then show ?thesis using assms
    by (cases v) (auto simp: append_allOutputs_def set_emplace distinct_emplace split: if_splits)
qed

lemma append_output_names_set:
  "append_output_names env np elems cs = Inr cs' \<Longrightarrow>
   set cs' = set cs \<union> Built np ` set (output_names elems) \<and> (distinct cs \<longrightarrow> distinct cs')"
proof (induction elems arbitrary: cs)
  case Nil
  then show ?case by simp
next
  case (Cons elem elems)
  show ?case
  proof (cases elem)
    case (VString n c)
    with Cons.prems have c: "c = []"
      and r: "append_output_names env np elems (emplace env (Built np n) cs) = Inr cs'"
      by (auto split: if_splits)
    from Cons.IH [OF r] show ?thesis using VString
      by (auto simp: set_emplace distinct_emplace)
  qed (use Cons.prems in simp_all)
qed

lemma append_outputs_set:
  assumes "append_outputs env name np attrs cs = Inr cs'"
  shows "set cs' = set cs \<union>
      set (case map_of attrs ''outputs'' of
             Some (VList elems) \<Rightarrow> map (Built np) (output_names elems) | _ \<Rightarrow> [])
    \<and> (distinct cs \<longrightarrow> distinct cs')"
proof (cases "map_of attrs ''outputs''")
  case None
  then show ?thesis using assms by (simp add: append_outputs_def)
next
  case (Some v)
  show ?thesis
  proof (cases v)
    case (VList elems)
    with Some assms have "append_output_names env np elems cs = Inr cs'"
      by (auto simp: append_outputs_def split: if_splits)
    from append_output_names_set [OF this] show ?thesis using Some VList by simp
  qed (use Some assms in \<open>simp_all add: append_outputs_def\<close>)
qed

lemma appendContext_entry_set:
  assumes "appendContext_entry env i cs = Inr cs'"
  shows "set cs' = set cs \<union> set (entry_elems env i) \<and> (distinct cs \<longrightarrow> distinct cs')"
proof -
  obtain name v where i: "i = (name, v)" by (cases i)
  let ?np = "parseStorePath env name"
  from assms i obtain attrs where v: "v = VAttrs attrs"
    by (cases v) (auto simp: appendContext_entry_def Let_def split: if_splits option.splits)
  from assms i v obtain c1 c2 where
    1: "append_path env ?np attrs cs = Inr c1" and
    2: "append_allOutputs env name ?np attrs c1 = Inr c2" and
    3: "append_outputs env name ?np attrs c2 = Inr cs'"
    by (auto simp: appendContext_entry_def Let_def split: if_splits option.splits sum.splits)
  from append_path_set [OF 1] append_allOutputs_set [OF 2] append_outputs_set [OF 3]
  show ?thesis using i v by (auto simp: entry_elems_def)
qed

lemma appendContext_entries_set:
  "appendContext_entries env bindings cs = Inr cs' \<Longrightarrow>
   set cs' = set cs \<union> set (new_elems env bindings) \<and> (distinct cs \<longrightarrow> distinct cs')"
proof (induction bindings arbitrary: cs)
  case Nil
  then show ?case by (simp add: new_elems_def)
next
  case (Cons i bindings)
  from Cons.prems obtain c1 where
    1: "appendContext_entry env i cs = Inr c1" and
    2: "appendContext_entries env bindings c1 = Inr cs'"
    by (auto split: sum.splits)
  from appendContext_entry_set [OF 1] Cons.IH [OF 2] show ?case
    by (auto simp: new_elems_def)
qed

text \<open>
  C6: whenever \<^verbatim>\<open>appendContext\<close> succeeds on a string with text \<open>s\<close> and context \<open>cs\<close>, its
  second argument is a mapping and the result is a string with the same text \<open>s\<close> whose
  context is, as a set, the union of \<open>cs\<close> and the elements constructed from the mapping
  (\<open>new_elems\<close>); the context of the result has no duplicates when \<open>cs\<close> has none.
\<close>

theorem appendContext_union:
  assumes "prim_appendContext env (VString s cs) arg1 = Inr r"
  shows "\<exists>bindings cs'. arg1 = VAttrs bindings \<and> r = VString s cs'
     \<and> set cs' = set cs \<union> set (new_elems env bindings)
     \<and> (distinct cs \<longrightarrow> distinct cs')"
proof -
  from assms obtain bindings where a: "arg1 = VAttrs bindings"
    by (cases arg1) (auto simp: prim_appendContext_def)
  from assms a obtain cs' where e: "appendContext_entries env bindings cs = Inr cs'"
    and r: "r = VString s cs'"
    by (auto simp: prim_appendContext_def split: sum.splits)
  from appendContext_entries_set [OF e] a r show ?thesis by blast
qed

theorem appendContext_union_witness:
  "prim_appendContext example_env (VString ''x'' [Opaque (StorePath ''a-src'')])
     (VAttrs [(''/nix/store/b.drv'', VAttrs [(''path'', VBool True), (''allOutputs'', VBool True),
                  (''outputs'', VList [VString ''out'' [], VString ''dev'' []])]),
              (''/nix/store/a-src'', VAttrs [(''path'', VBool True)])])
     = Inr (VString ''x'' [Opaque (StorePath ''a-src''), Opaque (StorePath ''b.drv''),
                           DrvDeep (StorePath ''b.drv''), Built (StorePath ''b.drv'') ''dev'',
                           Built (StorePath ''b.drv'') ''out''])
   \<and> (\<exists>bindings cs'.
        VAttrs [(''/nix/store/b.drv'', VAttrs [(''path'', VBool True), (''allOutputs'', VBool True),
                  (''outputs'', VList [VString ''out'' [], VString ''dev'' []])]),
                (''/nix/store/a-src'', VAttrs [(''path'', VBool True)])] = VAttrs bindings
        \<and> VString ''x'' [Opaque (StorePath ''a-src''), Opaque (StorePath ''b.drv''),
                           DrvDeep (StorePath ''b.drv''), Built (StorePath ''b.drv'') ''dev'',
                           Built (StorePath ''b.drv'') ''out''] = VString ''x'' cs'
        \<and> set cs' = set [Opaque (StorePath ''a-src'')] \<union> set (new_elems example_env bindings)
        \<and> (distinct [Opaque (StorePath ''a-src'')] \<longrightarrow> distinct cs'))"
proof -
  have h: "prim_appendContext example_env (VString ''x'' [Opaque (StorePath ''a-src'')])
     (VAttrs [(''/nix/store/b.drv'', VAttrs [(''path'', VBool True), (''allOutputs'', VBool True),
                  (''outputs'', VList [VString ''out'' [], VString ''dev'' []])]),
              (''/nix/store/a-src'', VAttrs [(''path'', VBool True)])])
     = Inr (VString ''x'' [Opaque (StorePath ''a-src''), Opaque (StorePath ''b.drv''),
                           DrvDeep (StorePath ''b.drv''), Built (StorePath ''b.drv'') ''dev'',
                           Built (StorePath ''b.drv'') ''out''])"
    by code_simp
  show ?thesis using h appendContext_union [OF h] by blast
qed

lemma append_path_bool:
  "map_of attrs ''path'' = None \<or> (\<exists>b. map_of attrs ''path'' = Some (VBool b)) \<Longrightarrow>
   \<exists>c1. append_path env np attrs cs = Inr c1
      \<and> set c1 = set cs \<union> (if map_of attrs ''path'' = Some (VBool True) then {Opaque np} else {})"
  by (auto simp: append_path_def set_emplace)

lemma append_allOutputs_drv:
  "isDerivation env name \<Longrightarrow>
   map_of attrs ''allOutputs'' = None \<or> (\<exists>b. map_of attrs ''allOutputs'' = Some (VBool b)) \<Longrightarrow>
   \<exists>c2. append_allOutputs env name np attrs c1 = Inr c2 \<and> set c2 \<subseteq> set c1 \<union> {DrvDeep np}"
  by (auto simp: append_allOutputs_def set_emplace)

lemma append_output_names_plain:
  "\<exists>cs'. append_output_names env np (map (\<lambda>output. VString output []) names) cs = Inr cs'
     \<and> set cs' = set cs \<union> Built np ` set names"
proof (induction names arbitrary: cs)
  case Nil
  then show ?case by simp
next
  case (Cons n names)
  from Cons.IH [of "emplace env (Built np n) cs"] show ?case
    by (auto simp: set_emplace)
qed

text \<open>
  C5: take an entry that the loop reaches (the first argument is a string, the entries
  before it were processed without error and left the context \<open>cs1\<close>), whose key is a store
  path that the store can ensure (or the read-only mode), and whose \<open>path\<close> field is absent
  or a boolean. Then
  \<^item> if the key is not a derivation and \<open>allOutputs\<close> is true, \<^verbatim>\<open>appendContext\<close> fails with
    the error "tried to add all-outputs context of (key), which is not a derivation";
  \<^item> if the key is not a derivation, \<open>allOutputs\<close> is absent or false and \<open>outputs\<close> is a
    non-empty list, \<^verbatim>\<open>appendContext\<close> fails with the error "tried to add derivation output
    context of (key), which is not a derivation", whatever the elements of the list are
    (they are not forced: the test comes once, before the loop over the list);
  \<^item> if the key is a derivation, \<open>allOutputs\<close> is absent or a boolean, \<open>outputs\<close> is a list of
    context-free strings and the entry is the last one, \<^verbatim>\<open>appendContext\<close> succeeds, the
    result holds a Built element of the key for each listed name, and every Built element
    of the result was there before the entry or is one of these.
\<close>

theorem appendContext_not_a_derivation:
  assumes pre: "appendContext_entries env pre cs = Inr cs1"
    and key: "isStorePath env name"
    and ens: "readOnlyMode env \<or> ensurePath env (parseStorePath env name) = None"
    and pth: "map_of attrs ''path'' = None \<or> (\<exists>b. map_of attrs ''path'' = Some (VBool b))"
  shows "(\<not> isDerivation env name \<and> map_of attrs ''allOutputs'' = Some (VBool True) \<longrightarrow>
          prim_appendContext env (VString s cs) (VAttrs (pre @ (name, VAttrs attrs) # post))
            = Inl (AllOutputsNotDerivation name))
     \<and> (\<not> isDerivation env name
          \<and> (map_of attrs ''allOutputs'' = None \<or> map_of attrs ''allOutputs'' = Some (VBool False))
          \<and> map_of attrs ''outputs'' = Some (VList (elem # elems)) \<longrightarrow>
          prim_appendContext env (VString s cs) (VAttrs (pre @ (name, VAttrs attrs) # post))
            = Inl (OutputsNotDerivation name))
     \<and> (isDerivation env name
          \<and> (map_of attrs ''allOutputs'' = None \<or> (\<exists>b. map_of attrs ''allOutputs'' = Some (VBool b)))
          \<and> map_of attrs ''outputs'' = Some (VList (map (\<lambda>output. VString output []) names)) \<longrightarrow>
          (\<exists>cs'. prim_appendContext env (VString s cs) (VAttrs (pre @ [(name, VAttrs attrs)]))
                   = Inr (VString s cs')
             \<and> (\<forall>n \<in> set names. Built (parseStorePath env name) n \<in> set cs')
             \<and> (\<forall>p n. Built p n \<in> set cs' \<longrightarrow>
                   Built p n \<in> set cs1 \<or> (p = parseStorePath env name \<and> n \<in> set names))))"
proof -
  let ?np = "parseStorePath env name"
  from append_path_bool [OF pth] obtain c1 where
    c1: "append_path env ?np attrs cs1 = Inr c1" and
    s1: "set c1 = set cs1 \<union> (if map_of attrs ''path'' = Some (VBool True) then {Opaque ?np} else {})"
    by blast
  have entry: "appendContext_entry env (name, VAttrs attrs) cs1 =
      (case append_allOutputs env name ?np attrs c1 of
         Inl e \<Rightarrow> Inl e
       | Inr c2 \<Rightarrow> append_outputs env name ?np attrs c2)"
    using key ens c1 by (auto simp: appendContext_entry_def Let_def)
  have prim: "\<And>rest. prim_appendContext env (VString s cs) (VAttrs (pre @ (name, VAttrs attrs) # rest)) =
      (case appendContext_entry env (name, VAttrs attrs) cs1 of
         Inl e \<Rightarrow> Inl e
       | Inr c3 \<Rightarrow>
           (case appendContext_entries env rest c3 of
              Inl e \<Rightarrow> Inl e
            | Inr c4 \<Rightarrow> Inr (VString s c4)))"
    using pre by (simp add: prim_appendContext_def appendContext_entries_append split: sum.splits)
  have A: "prim_appendContext env (VString s cs) (VAttrs (pre @ (name, VAttrs attrs) # post))
            = Inl (AllOutputsNotDerivation name)"
    if "\<not> isDerivation env name" "map_of attrs ''allOutputs'' = Some (VBool True)"
  proof -
    have "append_allOutputs env name ?np attrs c1 = Inl (AllOutputsNotDerivation name)"
      using that by (simp add: append_allOutputs_def)
    then show ?thesis by (simp add: prim entry)
  qed
  have B: "prim_appendContext env (VString s cs) (VAttrs (pre @ (name, VAttrs attrs) # post))
            = Inl (OutputsNotDerivation name)"
    if "\<not> isDerivation env name"
      "map_of attrs ''allOutputs'' = None \<or> map_of attrs ''allOutputs'' = Some (VBool False)"
      "map_of attrs ''outputs'' = Some (VList (elem # elems))"
  proof -
    have "append_allOutputs env name ?np attrs c1 = Inr c1"
      using that(2) by (auto simp: append_allOutputs_def)
    moreover have "append_outputs env name ?np attrs c1 = Inl (OutputsNotDerivation name)"
      using that(1,3) by (simp add: append_outputs_def)
    ultimately show ?thesis by (simp add: prim entry)
  qed
  have C: "\<exists>cs'. prim_appendContext env (VString s cs) (VAttrs (pre @ [(name, VAttrs attrs)]))
                   = Inr (VString s cs')
             \<and> (\<forall>n \<in> set names. Built ?np n \<in> set cs')
             \<and> (\<forall>p n. Built p n \<in> set cs' \<longrightarrow> Built p n \<in> set cs1 \<or> (p = ?np \<and> n \<in> set names))"
    if "isDerivation env name"
      "map_of attrs ''allOutputs'' = None \<or> (\<exists>b. map_of attrs ''allOutputs'' = Some (VBool b))"
      "map_of attrs ''outputs'' = Some (VList (map (\<lambda>output. VString output []) names))"
  proof -
    from append_allOutputs_drv [OF that(1,2)] obtain c2 where
      c2: "append_allOutputs env name ?np attrs c1 = Inr c2" and
      s2: "set c2 \<subseteq> set c1 \<union> {DrvDeep ?np}"
      by blast
    from append_output_names_plain [of env ?np names c2] obtain c3 where
      c3: "append_output_names env ?np (map (\<lambda>output. VString output []) names) c2 = Inr c3" and
      s3: "set c3 = set c2 \<union> Built ?np ` set names"
      by blast
    have "append_outputs env name ?np attrs c2 = Inr c3"
      using that(1,3) c3 by (simp add: append_outputs_def)
    then have "prim_appendContext env (VString s cs) (VAttrs (pre @ [(name, VAttrs attrs)]))
                   = Inr (VString s c3)"
      using c2 by (simp add: prim entry)
    moreover have "\<forall>n \<in> set names. Built ?np n \<in> set c3" using s3 by blast
    moreover have "\<forall>p n. Built p n \<in> set c3 \<longrightarrow> Built p n \<in> set cs1 \<or> (p = ?np \<and> n \<in> set names)"
      using s1 s2 s3 by (auto split: if_splits)
    ultimately show ?thesis by blast
  qed
  show ?thesis using A B C by blast
qed

theorem appendContext_not_a_derivation_witness:
  "appendContext_entries example_env [] [] = Inr []
   \<and> isStorePath example_env ''/nix/store/a-src''
   \<and> \<not> isDerivation example_env ''/nix/store/a-src''
   \<and> isStorePath example_env ''/nix/store/b.drv''
   \<and> isDerivation example_env ''/nix/store/b.drv''
   \<and> prim_appendContext example_env (VString ''x'' [])
        (VAttrs [(''/nix/store/a-src'', VAttrs [(''allOutputs'', VBool True)])])
       = Inl (AllOutputsNotDerivation ''/nix/store/a-src'')
   \<and> prim_appendContext example_env (VString ''x'' [])
        (VAttrs [(''/nix/store/a-src'', VAttrs [(''outputs'', VList [VInt 1])])])
       = Inl (OutputsNotDerivation ''/nix/store/a-src'')
   \<and> (\<exists>cs'. prim_appendContext example_env (VString ''x'' [])
               (VAttrs [(''/nix/store/b.drv'',
                         VAttrs [(''outputs'', VList [VString ''out'' [], VString ''dev'' []])])])
              = Inr (VString ''x'' cs')
           \<and> Built (StorePath ''b.drv'') ''out'' \<in> set cs'
           \<and> Built (StorePath ''b.drv'') ''dev'' \<in> set cs')"
proof -
  have h0: "appendContext_entries example_env [] [] = Inr []" by simp
  have ka: "isStorePath example_env ''/nix/store/a-src''"
    and kb: "isStorePath example_env ''/nix/store/b.drv''"
    by (simp_all add: example_env_def example_isStorePath_def)
  have da: "\<not> isDerivation example_env ''/nix/store/a-src''"
    and db: "isDerivation example_env ''/nix/store/b.drv''"
    by (simp_all add: example_env_def example_isDerivation_def)
  have ea: "readOnlyMode example_env
      \<or> ensurePath example_env (parseStorePath example_env ''/nix/store/a-src'') = None"
    and eb: "readOnlyMode example_env
      \<or> ensurePath example_env (parseStorePath example_env ''/nix/store/b.drv'') = None"
    by (simp_all add: example_env_def)
  have pb: "parseStorePath example_env ''/nix/store/b.drv'' = StorePath ''b.drv''"
    by (simp add: example_env_def)
  have 1: "prim_appendContext example_env (VString ''x'' [])
        (VAttrs [(''/nix/store/a-src'', VAttrs [(''allOutputs'', VBool True)])])
       = Inl (AllOutputsNotDerivation ''/nix/store/a-src'')"
    using da appendContext_not_a_derivation [OF h0 ka ea,
        of "[(''allOutputs'', VBool True)]" "''x''" "[]" "VInt 1" "[]" "[]"]
    by simp
  have 2: "prim_appendContext example_env (VString ''x'' [])
        (VAttrs [(''/nix/store/a-src'', VAttrs [(''outputs'', VList [VInt 1])])])
       = Inl (OutputsNotDerivation ''/nix/store/a-src'')"
    using da appendContext_not_a_derivation [OF h0 ka ea,
        of "[(''outputs'', VList [VInt 1])]" "''x''" "[]" "VInt 1" "[]" "[]"]
    by simp
  have 3: "\<exists>cs'. prim_appendContext example_env (VString ''x'' [])
               (VAttrs [(''/nix/store/b.drv'',
                         VAttrs [(''outputs'', VList [VString ''out'' [], VString ''dev'' []])])])
              = Inr (VString ''x'' cs')
           \<and> Built (StorePath ''b.drv'') ''out'' \<in> set cs'
           \<and> Built (StorePath ''b.drv'') ''dev'' \<in> set cs'"
    using db pb appendContext_not_a_derivation [OF h0 kb eb,
        of "[(''outputs'', VList [VString ''out'' [], VString ''dev'' []])]"
           "''x''" "[]" "VInt 1" "[]" "[''out'', ''dev'']"]
    by auto
  show ?thesis using h0 ka kb da db 1 2 3 by blast
qed

subsection \<open>\<^verbatim>\<open>getContext\<close>\<close>

lemma getContext_visit_at:
  "getContext_visit env m x = contextInfos_at env (elemPath x) (visit_update x) m"
proof (cases x)
  case (Opaque p)
  have "visit_update (Opaque p) = (\<lambda>info. info\<lparr>path := True\<rparr>)" by (rule ext) simp
  then show ?thesis using Opaque by simp
next
  case (DrvDeep p)
  have "visit_update (DrvDeep p) = (\<lambda>info. info\<lparr>allOutputs := True\<rparr>)" by (rule ext) simp
  then show ?thesis using DrvDeep by simp
next
  case (Built p n)
  have "visit_update (Built p n) = (\<lambda>info. info\<lparr>outputs := outputs info @ [n]\<rparr>)"
    by (rule ext) simp
  then show ?thesis using Built by simp
qed

lemma built_outputs_snoc:
  "built_outputs p (C @ [x]) =
     built_outputs p C @ (case x of Built q n \<Rightarrow> if q = p then [n] else [] | _ \<Rightarrow> [])"
proof (induction C)
  case Nil
  then show ?case by (cases x) simp_all
next
  case (Cons c C)
  then show ?case by (cases c) simp_all
qed

lemma set_built_outputs: "set (built_outputs p C) = {n. Built p n \<in> set C}"
proof (induction C)
  case Nil
  then show ?case by simp
next
  case (Cons c C)
  then show ?case by (cases c) auto
qed

lemma has_built_iff: "has_built p C \<longleftrightarrow> built_outputs p C \<noteq> []"
proof (induction C)
  case Nil
  then show ?case by simp
next
  case (Cons c C)
  then show ?case by (cases c) auto
qed

lemma elem_shape:
  "c = Opaque (elemPath c) \<or> c = DrvDeep (elemPath c) \<or> (\<exists>n. c = Built (elemPath c) n)"
  by (cases c) simp_all

lemma elemPath_image_cases:
  "p \<in> elemPath ` set C \<longleftrightarrow>
     Opaque p \<in> set C \<or> DrvDeep p \<in> set C \<or> (\<exists>n. Built p n \<in> set C)"
proof
  assume "p \<in> elemPath ` set C"
  then obtain c where c: "c \<in> set C" "elemPath c = p" by auto
  with elem_shape [of c]
  show "Opaque p \<in> set C \<or> DrvDeep p \<in> set C \<or> (\<exists>n. Built p n \<in> set C)"
    by metis
next
  assume "Opaque p \<in> set C \<or> DrvDeep p \<in> set C \<or> (\<exists>n. Built p n \<in> set C)"
  then show "p \<in> elemPath ` set C" by (force simp: image_iff)
qed

lemma spec_info_default:
  assumes "p \<notin> elemPath ` set C"
  shows "spec_info C p = ContextInfo_default"
proof -
  from assms have a: "Opaque p \<notin> set C" "DrvDeep p \<notin> set C" "\<forall>n. Built p n \<notin> set C"
    by (simp_all add: elemPath_image_cases)
  then have "set (built_outputs p C) = {}" by (simp add: set_built_outputs)
  then have "built_outputs p C = []" by simp
  with a show ?thesis by (simp add: spec_info_def ContextInfo_default_def)
qed

lemma spec_info_snoc:
  "spec_info (C @ [x]) k =
     (if k = elemPath x then visit_update x (spec_info C k) else spec_info C k)"
  by (cases x) (auto simp: spec_info_def built_outputs_snoc)

lemma distinct_fst_ordered_insert:
  assumes d: "distinct (map fst m)" and n: "p \<notin> fst ` set m"
  shows "distinct (map fst (ordered_insert b (p, v) m))"
proof -
  have "map fst m = map fst (takeWhile b m) @ map fst (dropWhile b m)"
    by (metis map_append takeWhile_dropWhile_id)
  with d have "distinct (map fst (takeWhile b m) @ map fst (dropWhile b m))" by simp
  then have "distinct (map fst (takeWhile b m))" "distinct (map fst (dropWhile b m))"
    "set (map fst (takeWhile b m)) \<inter> set (map fst (dropWhile b m)) = {}"
    unfolding distinct_append by blast+
  moreover have "p \<notin> set (map fst (takeWhile b m))" "p \<notin> set (map fst (dropWhile b m))"
    using n by (auto dest: set_takeWhileD set_dropWhileD)
  ultimately show ?thesis by (simp add: ordered_insert_def)
qed

lemma contextInfos_at_inv:
  assumes inv: "contextInfos_inv m C"
  shows "contextInfos_inv (contextInfos_at env (elemPath x) (visit_update x) m) (C @ [x])"
proof (cases "elemPath x \<in> fst ` set m")
  case True
  let ?g = "\<lambda>(k, info). if k = elemPath x then (k, visit_update x info) else (k, info)"
  have r: "contextInfos_at env (elemPath x) (visit_update x) m = map ?g m"
    using True by (simp add: contextInfos_at_def)
  have f: "map fst (map ?g m) = map fst m" by (induction m) auto
  have 1: "distinct (map fst (map ?g m))"
    unfolding f using inv by (simp add: contextInfos_inv_def)
  have "fst ` set (map ?g m) = fst ` set m" using f by (metis list.set_map)
  also have "\<dots> = elemPath ` set (C @ [x])" using inv True by (auto simp: contextInfos_inv_def)
  finally have 2: "fst ` set (map ?g m) = elemPath ` set (C @ [x])" .
  have 3: "\<forall>(k, info) \<in> set (map ?g m). info = spec_info (C @ [x]) k"
  proof -
    have e: "\<forall>(k, info) \<in> set m. info = spec_info C k"
      using inv by (simp add: contextInfos_inv_def)
    show ?thesis
    proof (clarify)
      fix k info assume "(k, info) \<in> set (map ?g m)"
      then obtain a b where ab: "(a, b) \<in> set m" and g: "?g (a, b) = (k, info)" by auto
      from e ab have b: "b = spec_info C a" by blast
      from g b show "info = spec_info (C @ [x]) k"
        by (auto simp: spec_info_snoc split: if_splits)
    qed
  qed
  show ?thesis using 1 2 3 unfolding r contextInfos_inv_def by blast
next
  case False
  let ?b = "\<lambda>(k, info). pathLess env k (elemPath x)"
  let ?e = "(elemPath x, visit_update x ContextInfo_default)"
  have r: "contextInfos_at env (elemPath x) (visit_update x) m = ordered_insert ?b ?e m"
    using False by (simp add: contextInfos_at_def)
  have n: "elemPath x \<notin> elemPath ` set C" using inv False by (simp add: contextInfos_inv_def)
  have 1: "distinct (map fst (ordered_insert ?b ?e m))"
    using inv False by (intro distinct_fst_ordered_insert) (simp_all add: contextInfos_inv_def)
  have 2: "fst ` set (ordered_insert ?b ?e m) = elemPath ` set (C @ [x])"
    using inv by (simp add: set_ordered_insert contextInfos_inv_def)
  have 3: "\<forall>(k, info) \<in> set (ordered_insert ?b ?e m). info = spec_info (C @ [x]) k"
  proof -
    have e: "\<forall>(k, info) \<in> set m. info = spec_info C k"
      using inv by (simp add: contextInfos_inv_def)
    show ?thesis
    proof (clarify)
      fix k info assume "(k, info) \<in> set (ordered_insert ?b ?e m)"
      then consider "(k, info) = ?e" | "(k, info) \<in> set m"
        by (auto simp: set_ordered_insert)
      then show "info = spec_info (C @ [x]) k"
      proof cases
        case 1
        then show ?thesis using spec_info_default [OF n] by (simp add: spec_info_snoc)
      next
        case 2
        then have "k \<noteq> elemPath x" using False by force
        moreover from e 2 have "info = spec_info C k" by blast
        ultimately show ?thesis by (simp add: spec_info_snoc)
      qed
    qed
  qed
  show ?thesis using 1 2 3 unfolding r contextInfos_inv_def by blast
qed

lemma contextInfos_invariant: "contextInfos_inv (contextInfos env C) C"
proof (induction C rule: rev_induct)
  case Nil
  then show ?case by (simp add: contextInfos_def contextInfos_inv_def)
next
  case (snoc x C)
  have "contextInfos env (C @ [x]) = getContext_visit env (contextInfos env C) x"
    by (simp add: contextInfos_def)
  then show ?case using contextInfos_at_inv [OF snoc.IH] by (simp add: getContext_visit_at)
qed

lemma infoAttrs_spec_info: "infoAttrs (spec_info C p) = spec_record C p"
  by (simp add: infoAttrs_def spec_info_def spec_record_def has_built_iff)

lemma getContext_bindings:
  "map (\<lambda>(p, info). (printStorePath env p, VAttrs (infoAttrs info))) (contextInfos env C)
   = map (\<lambda>p. (printStorePath env p, VAttrs (spec_record C p))) (map fst (contextInfos env C))"
proof -
  have "\<forall>(k, info) \<in> set (contextInfos env C). info = spec_info C k"
    using contextInfos_invariant [of env C] by (simp add: contextInfos_inv_def)
  then show ?thesis by (auto simp: infoAttrs_spec_info)
qed

lemma spec_record_no_false:
  "(k, v) \<in> set (spec_record C p) \<Longrightarrow> v \<noteq> VBool False \<and> v \<noteq> VList []"
  by (auto simp: spec_record_def has_built_iff split: if_splits)

text \<open>
  C2: on a string with context \<open>C\<close>, \<^verbatim>\<open>getContext\<close> returns a mapping with exactly one
  binding per store path of \<open>C\<close> (the list \<open>ps\<close> has no duplicates and its members are the
  paths of the elements of \<open>C\<close>). The key of a binding is the printed path and its value
  the record \<open>spec_record C p\<close>: \<open>path = true\<close> iff \<open>Opaque p\<close> is in \<open>C\<close>,
  \<open>allOutputs = true\<close> iff \<open>DrvDeep p\<close> is in \<open>C\<close>, \<open>outputs\<close> iff some \<open>Built p\<close> is in
  \<open>C\<close>, listing the output names of the Built elements of \<open>p\<close> in the order of \<open>C\<close>. No
  field of a record is the boolean false or the empty list.
\<close>

theorem getContext_records:
  "\<exists>ps. prim_getContext env (VString s C)
          = Inr (VAttrs (map (\<lambda>p. (printStorePath env p, VAttrs (spec_record C p))) ps))
     \<and> distinct ps \<and> set ps = elemPath ` set C
     \<and> (\<forall>p \<in> set ps. \<forall>(k, v) \<in> set (spec_record C p). v \<noteq> VBool False \<and> v \<noteq> VList [])"
proof -
  let ?ps = "map fst (contextInfos env C)"
  have "prim_getContext env (VString s C)
          = Inr (VAttrs (map (\<lambda>p. (printStorePath env p, VAttrs (spec_record C p))) ?ps))"
    by (simp add: prim_getContext_def getContext_bindings)
  moreover have "distinct ?ps" "set ?ps = elemPath ` set C"
    using contextInfos_invariant [of env C] by (simp_all add: contextInfos_inv_def)
  moreover have "\<forall>p \<in> set ?ps. \<forall>(k, v) \<in> set (spec_record C p). v \<noteq> VBool False \<and> v \<noteq> VList []"
    using spec_record_no_false by blast
  ultimately show ?thesis by blast
qed


theorem getContext_records_witness:
  "prim_getContext example_env
     (VString ''x'' [Opaque (StorePath ''a-src''), DrvDeep (StorePath ''b.drv''),
                     Built (StorePath ''b.drv'') ''dev'', Built (StorePath ''b.drv'') ''out''])
     = Inr (VAttrs [(''/nix/store/a-src'', VAttrs [(''path'', VBool True)]),
                    (''/nix/store/b.drv'',
                     VAttrs [(''allOutputs'', VBool True),
                             (''outputs'', VList [VString ''dev'' [], VString ''out'' []])])])
   \<and> (\<exists>ps. prim_getContext example_env
              (VString ''x'' [Opaque (StorePath ''a-src''), DrvDeep (StorePath ''b.drv''),
                              Built (StorePath ''b.drv'') ''dev'',
                              Built (StorePath ''b.drv'') ''out''])
          = Inr (VAttrs (map (\<lambda>p. (printStorePath example_env p,
                   VAttrs (spec_record [Opaque (StorePath ''a-src''), DrvDeep (StorePath ''b.drv''),
                              Built (StorePath ''b.drv'') ''dev'',
                              Built (StorePath ''b.drv'') ''out''] p))) ps))
        \<and> distinct ps
        \<and> set ps = {StorePath ''a-src'', StorePath ''b.drv''})"
proof -
  let ?C = "[Opaque (StorePath ''a-src''), DrvDeep (StorePath ''b.drv''),
             Built (StorePath ''b.drv'') ''dev'', Built (StorePath ''b.drv'') ''out'']"
  have g: "prim_getContext example_env (VString ''x'' ?C)
     = Inr (VAttrs [(''/nix/store/a-src'', VAttrs [(''path'', VBool True)]),
                    (''/nix/store/b.drv'',
                     VAttrs [(''allOutputs'', VBool True),
                             (''outputs'', VList [VString ''dev'' [], VString ''out'' []])])])"
    by code_simp
  have e: "elemPath ` set ?C = {StorePath ''a-src'', StorePath ''b.drv''}" by auto
  from getContext_records [of example_env "''x''" ?C] obtain ps where
    "prim_getContext example_env (VString ''x'' ?C)
       = Inr (VAttrs (map (\<lambda>p. (printStorePath example_env p, VAttrs (spec_record ?C p))) ps))"
    "distinct ps" "set ps = elemPath ` set ?C"
    by blast
  then show ?thesis using g e by auto
qed

subsection \<open>Round trip\<close>

lemma map_of_spec_record:
  "map_of (spec_record C p) ''path'' = (if Opaque p \<in> set C then Some (VBool True) else None)"
  "map_of (spec_record C p) ''allOutputs'' = (if DrvDeep p \<in> set C then Some (VBool True) else None)"
  "map_of (spec_record C p) ''outputs'' =
     (if has_built p C
      then Some (VList (map (\<lambda>output. VString output []) (built_outputs p C)))
      else None)"
  by (simp_all add: spec_record_def)

lemma elems_of_path:
  "{c \<in> set C. elemPath c = p} =
     (if Opaque p \<in> set C then {Opaque p} else {}) \<union>
     (if DrvDeep p \<in> set C then {DrvDeep p} else {}) \<union>
     Built p ` set (built_outputs p C)"
proof (intro set_eqI iffI)
  fix c assume "c \<in> {c \<in> set C. elemPath c = p}"
  then have c: "c \<in> set C" "elemPath c = p" by simp_all
  with elem_shape [of c] show "c \<in> (if Opaque p \<in> set C then {Opaque p} else {}) \<union>
     (if DrvDeep p \<in> set C then {DrvDeep p} else {}) \<union> Built p ` set (built_outputs p C)"
    by (auto simp: set_built_outputs)
next
  fix c assume "c \<in> (if Opaque p \<in> set C then {Opaque p} else {}) \<union>
     (if DrvDeep p \<in> set C then {DrvDeep p} else {}) \<union> Built p ` set (built_outputs p C)"
  then show "c \<in> {c \<in> set C. elemPath c = p}"
    by (auto simp: set_built_outputs split: if_splits)
qed

lemma roundtrip_entry:
  assumes sp: "isStorePath env (printStorePath env p)"
    and pp: "parseStorePath env (printStorePath env p) = p"
    and en: "readOnlyMode env \<or> ensurePath env p = None"
    and dr: "DrvDeep p \<in> set C \<or> has_built p C \<longrightarrow> isDerivation env (printStorePath env p)"
  shows "\<exists>cs'. appendContext_entry env (printStorePath env p, VAttrs (spec_record C p)) cs = Inr cs'
     \<and> set cs' = set cs \<union> {c \<in> set C. elemPath c = p}"
proof -
  let ?name = "printStorePath env p"
  let ?attrs = "spec_record C p"
  have "\<exists>c1. append_path env p ?attrs cs = Inr c1
      \<and> set c1 = set cs \<union> (if Opaque p \<in> set C then {Opaque p} else {})"
    by (simp add: append_path_def map_of_spec_record set_emplace)
  then obtain c1 where c1: "append_path env p ?attrs cs = Inr c1"
    and s1: "set c1 = set cs \<union> (if Opaque p \<in> set C then {Opaque p} else {})"
    by blast
  have "\<exists>c2. append_allOutputs env ?name p ?attrs c1 = Inr c2
      \<and> set c2 = set c1 \<union> (if DrvDeep p \<in> set C then {DrvDeep p} else {})"
    using dr by (simp add: append_allOutputs_def map_of_spec_record set_emplace)
  then obtain c2 where c2: "append_allOutputs env ?name p ?attrs c1 = Inr c2"
    and s2: "set c2 = set c1 \<union> (if DrvDeep p \<in> set C then {DrvDeep p} else {})"
    by blast
  have "\<exists>c3. append_outputs env ?name p ?attrs c2 = Inr c3
      \<and> set c3 = set c2 \<union> Built p ` set (built_outputs p C)"
  proof (cases "has_built p C")
    case True
    from append_output_names_plain [of env p "built_outputs p C" c2] obtain c where
      "append_output_names env p (map (\<lambda>output. VString output []) (built_outputs p C)) c2 = Inr c"
      "set c = set c2 \<union> Built p ` set (built_outputs p C)"
      by blast
    then show ?thesis using True dr
      by (simp add: append_outputs_def map_of_spec_record)
  next
    case False
    then have "built_outputs p C = []" by (simp add: has_built_iff)
    then show ?thesis using False
      by (simp add: append_outputs_def map_of_spec_record)
  qed
  then obtain c3 where c3: "append_outputs env ?name p ?attrs c2 = Inr c3"
    and s3: "set c3 = set c2 \<union> Built p ` set (built_outputs p C)"
    by blast
  have "appendContext_entry env (?name, VAttrs ?attrs) cs = Inr c3"
    using sp pp en c1 c2 c3 by (auto simp: appendContext_entry_def Let_def)
  moreover have "set c3 = set cs \<union> {c \<in> set C. elemPath c = p}"
    unfolding elems_of_path s3 s2 s1 by blast
  ultimately show ?thesis by blast
qed

lemma roundtrip_entries:
  assumes "\<forall>p \<in> set ps. isStorePath env (printStorePath env p)
             \<and> parseStorePath env (printStorePath env p) = p
             \<and> (readOnlyMode env \<or> ensurePath env p = None)
             \<and> (DrvDeep p \<in> set C \<or> has_built p C \<longrightarrow> isDerivation env (printStorePath env p))"
  shows "\<exists>cs'. appendContext_entries env
             (map (\<lambda>p. (printStorePath env p, VAttrs (spec_record C p))) ps) cs = Inr cs'
     \<and> set cs' = set cs \<union> {c \<in> set C. elemPath c \<in> set ps}"
  using assms
proof (induction ps arbitrary: cs)
  case Nil
  then show ?case by simp
next
  case (Cons p ps)
  from Cons.prems roundtrip_entry [of env p C cs] obtain c1 where
    1: "appendContext_entry env (printStorePath env p, VAttrs (spec_record C p)) cs = Inr c1"
    and s1: "set c1 = set cs \<union> {c \<in> set C. elemPath c = p}"
    by auto
  from Cons.prems have "\<forall>p \<in> set ps. isStorePath env (printStorePath env p)
             \<and> parseStorePath env (printStorePath env p) = p
             \<and> (readOnlyMode env \<or> ensurePath env p = None)
             \<and> (DrvDeep p \<in> set C \<or> has_built p C \<longrightarrow> isDerivation env (printStorePath env p))"
    by simp
  from Cons.IH [OF this, of c1] obtain c2 where
    2: "appendContext_entries env
          (map (\<lambda>p. (printStorePath env p, VAttrs (spec_record C p))) ps) c1 = Inr c2"
    and s2: "set c2 = set c1 \<union> {c \<in> set C. elemPath c \<in> set ps}"
    by blast
  have "appendContext_entries env
          (map (\<lambda>p. (printStorePath env p, VAttrs (spec_record C p))) (p # ps)) cs = Inr c2"
    using 1 2 by simp
  moreover have "set c2 = set cs \<union> {c \<in> set C. elemPath c \<in> set (p # ps)}"
    using s1 s2 by auto
  ultimately show ?case by blast
qed

lemma has_built_mem: "has_built p C \<longleftrightarrow> (\<exists>n. Built p n \<in> set C)"
proof -
  have "has_built p C \<longleftrightarrow> set (built_outputs p C) \<noteq> {}" by (simp add: has_built_iff)
  then show ?thesis by (auto simp: set_built_outputs)
qed

lemma bindings_preimage:
  "set bs \<subseteq> g ` S \<Longrightarrow> \<exists>ps. bs = map g ps \<and> set ps \<subseteq> S"
proof (induction bs)
  case Nil
  then show ?case by simp
next
  case (Cons b bs)
  then obtain ps where ps: "bs = map g ps" "set ps \<subseteq> S" by auto
  from Cons.prems obtain p where p: "p \<in> S" "b = g p" by auto
  have "b # bs = map g (p # ps) \<and> set (p # ps) \<subseteq> S" using ps p by simp
  then show ?case by (rule exI)
qed

text \<open>
  C1: let \<open>C\<close> be a context whose paths the store prints and parses back (the printed
  path is accepted by \<^verbatim>\<open>isStorePath\<close> and \<^verbatim>\<open>parseStorePath\<close> returns the path), that the
  store can ensure (or the read-only mode), and in which the printed path of every
  DrvDeep and Built element is a derivation. Then \<^verbatim>\<open>getContext\<close> on the string with text
  \<open>s\<close> and context \<open>C\<close> returns a mapping, and \<^verbatim>\<open>appendContext\<close> of this mapping to the
  context-free string with text \<open>s\<close> returns a string with text \<open>s\<close> whose context is
  \<open>C\<close> as a set, without duplicates. The same holds in whatever order the bindings of
  the mapping are iterated.
\<close>

theorem getContext_appendContext_roundtrip:
  assumes store: "\<forall>c \<in> set C. isStorePath env (printStorePath env (elemPath c))
                    \<and> parseStorePath env (printStorePath env (elemPath c)) = elemPath c"
    and ensure: "\<forall>c \<in> set C. readOnlyMode env \<or> ensurePath env (elemPath c) = None"
    and drv: "\<forall>c \<in> set C. \<not> isOpaque c \<longrightarrow> isDerivation env (printStorePath env (elemPath c))"
  shows "\<exists>bs C'. prim_getContext env (VString s C) = Inr (VAttrs bs)
     \<and> prim_appendContext env (VString s []) (VAttrs bs) = Inr (VString s C')
     \<and> set C' = set C \<and> distinct C'
     \<and> (\<forall>bs'. set bs' = set bs \<longrightarrow>
           (\<exists>C''. prim_appendContext env (VString s []) (VAttrs bs') = Inr (VString s C'')
              \<and> set C'' = set C))"
proof -
  let ?ps = "map fst (contextInfos env C)"
  let ?g = "\<lambda>p. (printStorePath env p, VAttrs (spec_record C p))"
  let ?bs = "map ?g ?ps"
  have g: "prim_getContext env (VString s C) = Inr (VAttrs ?bs)"
    by (simp add: prim_getContext_def getContext_bindings)
  have ps: "set ?ps = elemPath ` set C"
    using contextInfos_invariant [of env C] by (simp add: contextInfos_inv_def)
  have valid: "isStorePath env (printStorePath env p)
             \<and> parseStorePath env (printStorePath env p) = p
             \<and> (readOnlyMode env \<or> ensurePath env p = None)
             \<and> (DrvDeep p \<in> set C \<or> has_built p C \<longrightarrow> isDerivation env (printStorePath env p))"
    if "p \<in> set ?ps" for p
  proof -
    from that obtain c where c: "c \<in> set C" "elemPath c = p" using ps by auto
    have "isDerivation env (printStorePath env p)" if "DrvDeep p \<in> set C \<or> has_built p C"
    proof -
      from that obtain d where "d \<in> set C" "\<not> isOpaque d" "elemPath d = p"
        by (auto simp: has_built_mem)
      then show ?thesis using drv by blast
    qed
    then show ?thesis using c store ensure by auto
  qed
  have run: "\<exists>C'. prim_appendContext env (VString s []) (VAttrs (map ?g qs)) = Inr (VString s C')
       \<and> set C' = {c \<in> set C. elemPath c \<in> set qs} \<and> distinct C'"
    if "set qs \<subseteq> set ?ps" for qs
  proof -
    have "\<forall>p \<in> set qs. isStorePath env (printStorePath env p)
             \<and> parseStorePath env (printStorePath env p) = p
             \<and> (readOnlyMode env \<or> ensurePath env p = None)
             \<and> (DrvDeep p \<in> set C \<or> has_built p C \<longrightarrow> isDerivation env (printStorePath env p))"
    proof
      fix p assume "p \<in> set qs"
      then have "p \<in> set ?ps" using that by blast
      then show "isStorePath env (printStorePath env p)
             \<and> parseStorePath env (printStorePath env p) = p
             \<and> (readOnlyMode env \<or> ensurePath env p = None)
             \<and> (DrvDeep p \<in> set C \<or> has_built p C \<longrightarrow> isDerivation env (printStorePath env p))"
        by (rule valid)
    qed
    from roundtrip_entries [OF this, of "[]"] obtain C' where
      e: "appendContext_entries env (map ?g qs) [] = Inr C'"
      and s': "set C' = set [] \<union> {c \<in> set C. elemPath c \<in> set qs}"
      by blast
    have "prim_appendContext env (VString s []) (VAttrs (map ?g qs)) = Inr (VString s C')"
      using e by (simp add: prim_appendContext_def)
    moreover have "distinct C'" using appendContext_entries_set [OF e] by simp
    moreover have "set C' = {c \<in> set C. elemPath c \<in> set qs}" using s' by simp
    ultimately show ?thesis by blast
  qed
  have "set ?ps \<subseteq> set ?ps" by simp
  from run [OF this] obtain C' where
    a: "prim_appendContext env (VString s []) (VAttrs ?bs) = Inr (VString s C')"
    and sC: "set C' = {c \<in> set C. elemPath c \<in> set ?ps}" and d: "distinct C'"
    by blast
  have s: "set C' = set C" using sC ps by auto
  have any: "\<exists>C''. prim_appendContext env (VString s []) (VAttrs bs') = Inr (VString s C'')
              \<and> set C'' = set C"
    if bs': "set bs' = set ?bs" for bs'
  proof -
    have eq: "set bs' = ?g ` set ?ps" using bs' by (simp only: list.set_map)
    then have "set bs' \<subseteq> ?g ` set ?ps" by (rule equalityD1)
    from bindings_preimage [OF this] obtain qs where
      qs: "bs' = map ?g qs" "set qs \<subseteq> set ?ps" by blast
    from run [OF qs(2)] obtain C'' where
      r: "prim_appendContext env (VString s []) (VAttrs (map ?g qs)) = Inr (VString s C'')"
      and sq: "set C'' = {c \<in> set C. elemPath c \<in> set qs}"
      by blast
    have "set ?ps \<subseteq> set qs"
    proof
      fix p assume p: "p \<in> set ?ps"
      then have "?g p \<in> ?g ` set ?ps" by (rule imageI)
      then have "?g p \<in> set (map ?g qs)" using eq qs(1) by (simp only:)
      then have "?g p \<in> ?g ` set qs" by (simp only: list.set_map)
      then obtain q where q: "q \<in> set qs" "?g q = ?g p" by (auto simp only: image_iff)
      then have "printStorePath env q = printStorePath env p" by simp
      moreover have "q \<in> set ?ps" using q(1) qs(2) by blast
      then have "parseStorePath env (printStorePath env q) = q"
        using valid [of q] by simp
      moreover have "parseStorePath env (printStorePath env p) = p"
        using valid [OF p] by simp
      ultimately have "q = p" by metis
      then show "p \<in> set qs" using q(1) by simp
    qed
    then have "set C'' = set C" using sq ps by auto
    then show ?thesis using r qs(1) by blast
  qed
  have reorder: "\<forall>bs'. set bs' = set ?bs \<longrightarrow>
           (\<exists>C''. prim_appendContext env (VString s []) (VAttrs bs') = Inr (VString s C'')
              \<and> set C'' = set C)"
    by (intro allI impI) (rule any)
  have "prim_getContext env (VString s C) = Inr (VAttrs ?bs)
     \<and> prim_appendContext env (VString s []) (VAttrs ?bs) = Inr (VString s C')
     \<and> set C' = set C \<and> distinct C'
     \<and> (\<forall>bs'. set bs' = set ?bs \<longrightarrow>
           (\<exists>C''. prim_appendContext env (VString s []) (VAttrs bs') = Inr (VString s C'')
              \<and> set C'' = set C))"
    by (intro conjI g a s d reorder)
  then show ?thesis by (intro exI)
qed

theorem getContext_appendContext_roundtrip_witness:
  "isStorePath example_env (printStorePath example_env (StorePath ''a-src''))
   \<and> isStorePath example_env (printStorePath example_env (StorePath ''b.drv''))
   \<and> parseStorePath example_env (printStorePath example_env (StorePath ''a-src''))
       = StorePath ''a-src''
   \<and> parseStorePath example_env (printStorePath example_env (StorePath ''b.drv''))
       = StorePath ''b.drv''
   \<and> ensurePath example_env (StorePath ''a-src'') = None
   \<and> ensurePath example_env (StorePath ''b.drv'') = None
   \<and> isDerivation example_env (printStorePath example_env (StorePath ''b.drv''))
   \<and> prim_getContext example_env
        (VString ''x'' [Opaque (StorePath ''a-src''), DrvDeep (StorePath ''b.drv''),
                        Built (StorePath ''b.drv'') ''dev'', Built (StorePath ''b.drv'') ''out''])
      = Inr (VAttrs [(''/nix/store/a-src'', VAttrs [(''path'', VBool True)]),
                     (''/nix/store/b.drv'',
                      VAttrs [(''allOutputs'', VBool True),
                              (''outputs'', VList [VString ''dev'' [], VString ''out'' []])])])
   \<and> (\<exists>C'. prim_appendContext example_env (VString ''x'' [])
               (VAttrs [(''/nix/store/a-src'', VAttrs [(''path'', VBool True)]),
                        (''/nix/store/b.drv'',
                         VAttrs [(''allOutputs'', VBool True),
                                 (''outputs'', VList [VString ''dev'' [], VString ''out'' []])])])
              = Inr (VString ''x'' C')
          \<and> set C' = set [Opaque (StorePath ''a-src''), DrvDeep (StorePath ''b.drv''),
                           Built (StorePath ''b.drv'') ''dev'', Built (StorePath ''b.drv'') ''out'']
          \<and> distinct C')"
proof -
  let ?C = "[Opaque (StorePath ''a-src''), DrvDeep (StorePath ''b.drv''),
             Built (StorePath ''b.drv'') ''dev'', Built (StorePath ''b.drv'') ''out'']"
  have h1: "\<forall>c \<in> set ?C. isStorePath example_env (printStorePath example_env (elemPath c))
              \<and> parseStorePath example_env (printStorePath example_env (elemPath c)) = elemPath c"
    by (simp add: example_env_def example_isStorePath_def)
  have h2: "\<forall>c \<in> set ?C. readOnlyMode example_env \<or> ensurePath example_env (elemPath c) = None"
    by (simp add: example_env_def)
  have h2': "\<forall>c \<in> set ?C. ensurePath example_env (elemPath c) = None"
    by (simp add: example_env_def)
  have h3: "\<forall>c \<in> set ?C. \<not> isOpaque c
              \<longrightarrow> isDerivation example_env (printStorePath example_env (elemPath c))"
    by (simp add: example_env_def example_isDerivation_def)
  have g: "prim_getContext example_env (VString ''x'' ?C)
      = Inr (VAttrs [(''/nix/store/a-src'', VAttrs [(''path'', VBool True)]),
                     (''/nix/store/b.drv'',
                      VAttrs [(''allOutputs'', VBool True),
                              (''outputs'', VList [VString ''dev'' [], VString ''out'' []])])])"
    by code_simp
  from getContext_appendContext_roundtrip [OF h1 h2 h3, of "''x''"] g
  have "\<exists>C'. prim_appendContext example_env (VString ''x'' [])
               (VAttrs [(''/nix/store/a-src'', VAttrs [(''path'', VBool True)]),
                        (''/nix/store/b.drv'',
                         VAttrs [(''allOutputs'', VBool True),
                                 (''outputs'', VList [VString ''dev'' [], VString ''out'' []])])])
              = Inr (VString ''x'' C')
          \<and> set C' = set ?C \<and> distinct C'"
    by auto
  then show ?thesis using h1 h2' h3 g by simp
qed

end
